theory Spec2Isabelle
  imports Complex_Main "HOL-Library.Sublist"
begin

section \<open>Python strings\<close>

text \<open>
  A Python \<^verbatim>\<open>str\<close> is a sequence of code points. It is modelled as a \<^typ>\<open>string\<close> with
  one \<^typ>\<open>char\<close> per code point, so \<^term>\<open>length\<close> is Python's \<^verbatim>\<open>len\<close>; the model covers
  the strings whose code points are below 256. The character classes below are the ones
  of \<^verbatim>\<open>str.isdigit\<close>, \<^verbatim>\<open>str.isspace\<close> (which is also the class \<^verbatim>\<open>\s\<close> of \<^verbatim>\<open>re\<close> and the one
  \<^verbatim>\<open>str.strip\<close> removes) and \<^verbatim>\<open>str.lower\<close> on that range.
\<close>

definition isdigit :: "char \<Rightarrow> bool" where
  "isdigit c = (c \<in> set (''0123456789'' @ [CHR 0xB2, CHR 0xB3, CHR 0xB9]))"

definition isspace :: "char \<Rightarrow> bool" where
  "isspace c = (c \<in> set [CHR 0x09, CHR 0x0A, CHR 0x0B, CHR 0x0C, CHR 0x0D,
                         CHR 0x1C, CHR 0x1D, CHR 0x1E, CHR 0x1F, CHR 0x20,
                         CHR 0x85, CHR 0xA0])"

text \<open>
  \<^verbatim>\<open>c.lower()\<close> for one character: the letters A to Z and the capital letters U+00C0 to
  U+00DE (the multiplication sign U+00D7 apart) move up by 32.
\<close>

definition char_lower :: "char \<Rightarrow> char" where
  "char_lower c =
     (let n = (of_char c :: nat) in
      if (65 \<le> n \<and> n \<le> 90) \<or> (192 \<le> n \<and> n \<le> 222 \<and> n \<noteq> 215)
      then char_of (n + 32) else c)"

text \<open>\<^verbatim>\<open>s.lower()\<close>\<close>

definition lower :: "string \<Rightarrow> string" where
  "lower s = map char_lower s"

text \<open>\<^verbatim>\<open>a in b\<close> on two strings: \<^verbatim>\<open>a\<close> occurs in \<^verbatim>\<open>b\<close> as a contiguous run.\<close>

definition str_in :: "string \<Rightarrow> string \<Rightarrow> bool" where
  "str_in a b = sublist a b"

text \<open>\<^verbatim>\<open>s.isdigit()\<close>: every character is a digit and there is at least one.\<close>

definition str_isdigit :: "string \<Rightarrow> bool" where
  "str_isdigit s = (s \<noteq> [] \<and> list_all isdigit s)"

text \<open>\<^verbatim>\<open>any(c.isdigit() for c in s)\<close>\<close>

definition any_isdigit :: "string \<Rightarrow> bool" where
  "any_isdigit s = list_ex isdigit s"

text \<open>\<^verbatim>\<open>s.strip()\<close>: leading and trailing whitespace removed.\<close>

definition strip :: "string \<Rightarrow> string" where
  "strip s = rev (dropWhile isspace (rev (dropWhile isspace s)))"

text \<open>\<^verbatim>\<open>re.sub(r'\s+', ' ', s)\<close>: every maximal run of whitespace becomes one space.\<close>

function sub_whitespace :: "string \<Rightarrow> string" where
  "sub_whitespace [] = []"
| "sub_whitespace (c # cs) =
     (if isspace c then CHR 0x20 # sub_whitespace (dropWhile isspace cs)
      else c # sub_whitespace cs)"
  by pat_completeness auto
termination
  by (relation "measure length") (auto simp: length_dropWhile_le less_Suc_eq_le)


section \<open>The asynchronous Oracle adapter\<close>

text \<open>
  \<^verbatim>\<open>OracleAdapterAsync\<close> (\<^verbatim>\<open>oracle_adapter_async.py\<close>). The object \<^verbatim>\<open>self\<close> is a record: the
  attributes read from the configuration mapping, the mutable retry delay, the value
  cache and the dictionaries \<^verbatim>\<open>_scan_progress\<close> and \<^verbatim>\<open>_metrics\<close>. Every method that assigns
  to \<^verbatim>\<open>self\<close> returns the updated record.
\<close>

text \<open>One entry of a match list: \<^verbatim>\<open>{'pattern_name': ..., 'matched_value': ...}\<close>.\<close>

record pattern_match =
  pattern_name :: string
  matched_value :: string

record scan_progress =
  completed :: int
  total_count :: int

record metrics =
  total_rows_processed :: int
  total_matches_found :: int
  cache_hits :: int
  cache_misses :: int
  early_terminations :: int
  column_skips :: int
  batch_times :: "real list"
  connection_errors :: int
  retry_count :: int
  tables_skipped :: int
  tables_completed :: int

record OracleAdapterAsync =
  fetch_size :: int
  early_termination :: bool
  value_caching :: bool
  pattern_optimization :: bool
  adaptive_batch :: bool
  min_batch_size :: int
  max_batch_size :: int
  retry_attempts :: int
  retry_delay :: int
  config_show_all :: bool
  value_cache :: "string \<rightharpoonup> pattern_match list"
  progress :: scan_progress
  metrics :: metrics

text \<open>
  The object \<^verbatim>\<open>__init__\<close> builds from an empty configuration mapping: every
  \<^verbatim>\<open>config.get\<close> returns its default. \<^term>\<open>config_show_all\<close> is
  \<^verbatim>\<open>self.config.get('show_all', False)\<close>.
\<close>

definition init_defaults :: OracleAdapterAsync where
  "init_defaults =
     \<lparr> fetch_size = 10000,
       early_termination = True,
       value_caching = True,
       pattern_optimization = True,
       adaptive_batch = True,
       min_batch_size = 1000,
       max_batch_size = 50000,
       retry_attempts = 3,
       retry_delay = 1,
       config_show_all = False,
       value_cache = Map.empty,
       progress = \<lparr> completed = 0, total_count = 0 \<rparr>,
       metrics = \<lparr> total_rows_processed = 0, total_matches_found = 0, cache_hits = 0,
                   cache_misses = 0, early_terminations = 0, column_skips = 0,
                   batch_times = [], connection_errors = 0, retry_count = 0,
                   tables_skipped = 0, tables_completed = 0 \<rparr> \<rparr>"

text \<open>\<^verbatim>\<open>self._metrics[k] += 1\<close> for the three counters of the matching pipeline.\<close>

definition bump_early_terminations :: "OracleAdapterAsync \<Rightarrow> OracleAdapterAsync" where
  "bump_early_terminations self =
     self\<lparr>metrics := (metrics self)\<lparr>early_terminations := early_terminations (metrics self) + 1\<rparr>\<rparr>"

definition bump_cache_hits :: "OracleAdapterAsync \<Rightarrow> OracleAdapterAsync" where
  "bump_cache_hits self =
     self\<lparr>metrics := (metrics self)\<lparr>cache_hits := cache_hits (metrics self) + 1\<rparr>\<rparr>"

definition bump_cache_misses :: "OracleAdapterAsync \<Rightarrow> OracleAdapterAsync" where
  "bump_cache_misses self =
     self\<lparr>metrics := (metrics self)\<lparr>cache_misses := cache_misses (metrics self) + 1\<rparr>\<rparr>"

subsection \<open>Early rejection, value cache and pattern evaluation\<close>

text \<open>
  A compiled pattern set is the dictionary name \<open>\<rightarrow>\<close> compiled regex, in insertion order.
  The regex engine is a library: a compiled regex is the predicate
  \<^verbatim>\<open>lambda v: bool(regex.search(v))\<close>.
\<close>

type_synonym compiled_patterns = "(string \<times> (string \<Rightarrow> bool)) list"

text \<open>\<^verbatim>\<open>_early_termination_check\<close>\<close>

definition early_termination_check ::
  "OracleAdapterAsync \<Rightarrow> string \<Rightarrow> compiled_patterns \<Rightarrow> bool" where
  "early_termination_check self v patterns =
     (if \<not> early_termination self then False
      else let value_len = int (length v) in
        if (str_in ''@'' v \<and> str_in ''.'' v) \<or> (str_in ''-'' v \<and> value_len \<in> set [9, 11])
          then False
        else if value_len < 10 then True
        else if value_len > 1000 then True
        else if str_isdigit v \<and> value_len < 13 then True
        else if \<not> any_isdigit v then True
        else False)"

text \<open>\<^verbatim>\<open>_batch_match_patterns\<close>\<close>

fun batch_match_patterns :: "string \<Rightarrow> compiled_patterns \<Rightarrow> pattern_match list" where
  "batch_match_patterns v [] = []"
| "batch_match_patterns v ((pname, compiled_regex) # rest) =
     (if compiled_regex v
      then \<lparr>pattern_name = pname, matched_value = v\<rparr> # batch_match_patterns v rest
      else batch_match_patterns v rest)"

text \<open>
  \<^verbatim>\<open>_is_value_cached\<close>, \<^verbatim>\<open>_get_cached_result\<close>, \<^verbatim>\<open>_cache_value_result\<close>. The key is the
  hash of the value and nothing else.
\<close>

definition is_value_cached :: "OracleAdapterAsync \<Rightarrow> string \<Rightarrow> bool" where
  "is_value_cached self value_hash =
     (if \<not> value_caching self then False else value_cache self value_hash \<noteq> None)"

definition get_cached_result :: "OracleAdapterAsync \<Rightarrow> string \<Rightarrow> pattern_match list option" where
  "get_cached_result self value_hash =
     (if \<not> value_caching self then None else value_cache self value_hash)"

definition cache_value_result ::
  "OracleAdapterAsync \<Rightarrow> string \<Rightarrow> pattern_match list \<Rightarrow> OracleAdapterAsync" where
  "cache_value_result self value_hash matches =
     (if \<not> value_caching self then self
      else self\<lparr>value_cache := (value_cache self)(value_hash \<mapsto> matches)\<rparr>)"

text \<open>
  The per-pattern shape checks of \<^verbatim>\<open>_optimized_pattern_matching\<close>: \<^term>\<open>True\<close> where the
  loop body says \<^verbatim>\<open>continue\<close> before the regex is tried.
\<close>

definition shape_skip :: "string \<Rightarrow> string \<Rightarrow> bool" where
  "shape_skip pname v =
     (if pname = ''credit_card'' then
        (if length v < 13 \<or> length v > 19 then True
         else if \<not> any_isdigit v then True
         else False)
      else if pname = ''email'' then
        (if \<not> str_in ''@'' v \<or> \<not> str_in ''.'' v then True
         else if length v < 5 \<or> length v > 254 then True
         else False)
      else if pname = ''ssn'' then
        (if length v < 9 \<or> length v > 11 then True
         else if \<not> any_isdigit v then True
         else False)
      else False)"

text \<open>
  The loop over the compiled patterns: a pattern that passes its shape check and whose
  regex finds something adds a match; unless \<^verbatim>\<open>show_all\<close> is configured the loop breaks
  there.
\<close>

fun match_loop :: "bool \<Rightarrow> string \<Rightarrow> compiled_patterns \<Rightarrow> pattern_match list" where
  "match_loop sa v [] = []"
| "match_loop sa v ((pname, compiled_regex) # rest) =
     (if shape_skip pname v then match_loop sa v rest
      else if compiled_regex v then
        \<lparr>pattern_name = pname, matched_value = v\<rparr> # (if \<not> sa then [] else match_loop sa v rest)
      else match_loop sa v rest)"

text \<open>
  \<^verbatim>\<open>_optimized_pattern_matching\<close>. \<open>hash_value\<close> is \<^verbatim>\<open>_hash_value\<close>, the MD5 hex digest of
  the value, a library function taken as a parameter; the examples below take the
  identity for it, and in the examples a compiled regex that finds a fixed string \<open>s\<close>
  is \<^term>\<open>str_in s\<close>.
\<close>

definition optimized_pattern_matching ::
  "(string \<Rightarrow> string) \<Rightarrow> OracleAdapterAsync \<Rightarrow> string \<Rightarrow> compiled_patterns
     \<Rightarrow> pattern_match list \<times> OracleAdapterAsync" where
  "optimized_pattern_matching hash_value self v compiled =
     (if \<not> pattern_optimization self then (batch_match_patterns v compiled, self)
      else if early_termination_check self v compiled then ([], bump_early_terminations self)
      else
        let value_hash = hash_value v;
            evaluate = (\<lambda>self'.
              let matches = match_loop (config_show_all self') v compiled
              in (matches, cache_value_result self' value_hash matches))
        in if is_value_cached self value_hash then
             (case get_cached_result self value_hash of
                Some cached_result \<Rightarrow> (cached_result, bump_cache_hits self)
              | None \<Rightarrow> evaluate self)
           else evaluate (bump_cache_misses self))"

subsection \<open>Connecting with retries\<close>

text \<open>
  One connection attempt is the body of the \<^verbatim>\<open>try\<close> in \<^verbatim>\<open>connect\<close>: the session pool is
  created and the test query runs. It succeeds or raises; \<^verbatim>\<open>cx_Oracle.Error\<close> is the only
  exception class the loop catches.
\<close>

datatype exn = OracleError string | OtherError string

datatype attempt_outcome = Succeeds | Fails exn

text \<open>
  How \<^verbatim>\<open>connect\<close> ends: it returns after a successful attempt, it raises, or the loop
  condition is false at once and the method returns without having tried.
\<close>

datatype connect_end = Connected | Raised exn | NotAttempted

record connect_result =
  ending :: connect_end
  adapter :: OracleAdapterAsync
  attempts_made :: nat
  sleeps :: "int list"

text \<open>
  The \<^verbatim>\<open>while attempt < self._retry_attempts\<close> loop. \<open>backend i\<close> is what the \<open>i\<close>-th
  attempt (counted from 0) does; \<open>n\<close> counts the attempts made and \<open>slept\<close> lists the
  arguments of \<^verbatim>\<open>asyncio.sleep\<close>.
\<close>

function connect_loop ::
  "(nat \<Rightarrow> attempt_outcome) \<Rightarrow> OracleAdapterAsync \<Rightarrow> int \<Rightarrow> nat \<Rightarrow> int list \<Rightarrow> connect_result" where
  "connect_loop backend self attempt n slept =
     (if attempt < retry_attempts self then
        (case backend n of
           Succeeds \<Rightarrow>
             \<lparr>ending = Connected, adapter = self, attempts_made = n + 1, sleeps = slept\<rparr>
         | Fails (OtherError e) \<Rightarrow>
             \<lparr>ending = Raised (OtherError e), adapter = self, attempts_made = n + 1, sleeps = slept\<rparr>
         | Fails (OracleError e) \<Rightarrow>
             (let attempt' = attempt + 1 in
              if attempt' \<ge> retry_attempts self then
                \<lparr>ending = Raised (OracleError e), adapter = self, attempts_made = n + 1,
                 sleeps = slept\<rparr>
              else connect_loop backend (self\<lparr>retry_delay := retry_delay self * 2\<rparr>) attempt'
                     (n + 1) (slept @ [retry_delay self])))
      else \<lparr>ending = NotAttempted, adapter = self, attempts_made = n, sleeps = slept\<rparr>)"
  by pat_completeness auto
termination
  by (relation "measure (\<lambda>(backend, self, attempt, n, slept). nat (retry_attempts self - attempt))")
     auto

text \<open>\<^verbatim>\<open>connect\<close>\<close>

definition connect :: "(nat \<Rightarrow> attempt_outcome) \<Rightarrow> OracleAdapterAsync \<Rightarrow> connect_result" where
  "connect backend self = connect_loop backend self 0 0 []"

text \<open>
  Two backends for the examples: one that raises \<^verbatim>\<open>cx_Oracle.Error\<close> on its first \<open>k\<close>
  attempts and succeeds from then on, and one that raises it on every attempt.
\<close>

definition flaky_backend :: "nat \<Rightarrow> nat \<Rightarrow> attempt_outcome" where
  "flaky_backend k i = (if i < k then Fails (OracleError ''ORA-12541'') else Succeeds)"

definition dead_backend :: "nat \<Rightarrow> attempt_outcome" where
  "dead_backend i = Fails (OracleError ''ORA-12541'')"

subsection \<open>Adaptive batch size\<close>

text \<open>
  \<^verbatim>\<open>int(x)\<close> on a float truncates towards zero. The products \<^verbatim>\<open>current_batch_size * 0.8\<close>
  and \<^verbatim>\<open>current_batch_size * 1.2\<close> are taken over the reals; the double-precision product
  has the same integer part for every size below \<open>2 ^ 50\<close>. A batch time is a finite
  double, hence a real number, and \<^verbatim>\<open>target_time * 1.5\<close> and \<^verbatim>\<open>target_time * 0.5\<close> are the
  doubles 0.75 and 0.25 exactly.
\<close>

definition py_int :: "real \<Rightarrow> int" where
  "py_int x = (if x \<ge> 0 then \<lfloor>x\<rfloor> else \<lceil>x\<rceil>)"

text \<open>\<^verbatim>\<open>_adjust_batch_size\<close>\<close>

definition adjust_batch_size :: "OracleAdapterAsync \<Rightarrow> int \<Rightarrow> real \<Rightarrow> int" where
  "adjust_batch_size self current_batch_size batch_time =
     (if \<not> adaptive_batch self then current_batch_size
      else let target_time = (0.5 :: real) in
        if batch_time > target_time * 1.5 then
          max (min_batch_size self) (py_int (of_int current_batch_size * 0.8))
        else if batch_time < target_time * 0.5 then
          min (max_batch_size self) (py_int (of_int current_batch_size * 1.2))
        else current_batch_size)"

text \<open>
  The batch loop of \<^verbatim>\<open>_scan_table_streaming\<close>, as far as the batch size goes. The input
  lists the wall-clock times of the successive non-empty batches; the result lists the
  size passed to each \<^verbatim>\<open>fetchmany\<close>, the last one being the fetch that returns no rows.
\<close>

fun batch_loop :: "OracleAdapterAsync \<Rightarrow> int \<Rightarrow> int \<Rightarrow> real list \<Rightarrow> int list" where
  "batch_loop self batch_count current_batch_size [] = [current_batch_size]"
| "batch_loop self batch_count current_batch_size (batch_time # later) =
     current_batch_size #
       (let batch_count' = batch_count + 1 in
        batch_loop self batch_count'
          (if adaptive_batch self \<and> batch_count' mod 5 = 0
           then adjust_batch_size self current_batch_size batch_time
           else current_batch_size)
          later)"

definition scan_table_batch_sizes :: "OracleAdapterAsync \<Rightarrow> real list \<Rightarrow> int list" where
  "scan_table_batch_sizes self batch_times_seen = batch_loop self 0 (fetch_size self) batch_times_seen"

subsection \<open>Progress of a scan\<close>

text \<open>
  What \<^verbatim>\<open>_scan_table_with_progress\<close> sees of \<^verbatim>\<open>_scan_table_streaming\<close>: the generator is
  exhausted after yielding its matches (also when it caught an error of the table itself
  and returned), or an exception leaves it, for instance the \<^verbatim>\<open>re.error\<close> of
  \<^verbatim>\<open>_compile_patterns\<close>, which runs before the generator's \<^verbatim>\<open>try\<close>.
\<close>

datatype 'm stream_end = Exhausted "'m list" | Raising "'m list" exn

text \<open>
  \<^verbatim>\<open>_scan_table_with_progress\<close>. The second component of the state is the number of times
  the progress bar \<^verbatim>\<open>progress\<close> has been advanced.
\<close>

definition scan_table_with_progress ::
  "'m stream_end \<Rightarrow> OracleAdapterAsync \<times> int \<Rightarrow> 'm list \<times> OracleAdapterAsync \<times> int" where
  "scan_table_with_progress stream st =
     (case st of (self, bar) \<Rightarrow>
        (case stream of
           Exhausted matches \<Rightarrow>
             (matches,
              self\<lparr>progress := (progress self)\<lparr>completed := completed (progress self) + 1\<rparr>,
                   metrics := (metrics self)\<lparr>tables_completed := tables_completed (metrics self) + 1\<rparr>\<rparr>,
              bar + 1)
         | Raising yielded e \<Rightarrow>
             ([],
              self\<lparr>metrics := (metrics self)
                     \<lparr>connection_errors := connection_errors (metrics self) + 1,
                      tables_skipped := tables_skipped (metrics self) + 1\<rparr>\<rparr>,
              bar + 1)))"

text \<open>
  The units of one \<^verbatim>\<open>scan\<close>, each run to its end: \<^verbatim>\<open>scan\<close> resets the progress record
  (\<^verbatim>\<open>completed = 0\<close>, \<^verbatim>\<open>total = len(tables)\<close>) and every task runs
  \<^verbatim>\<open>_scan_table_with_progress\<close>.
\<close>

definition scan_units :: "'m stream_end list \<Rightarrow> OracleAdapterAsync \<Rightarrow> 'm list \<times> OracleAdapterAsync \<times> int" where
  "scan_units streams self =
     fold (\<lambda>stream (matches, st).
             (case scan_table_with_progress stream st of
                (found, st') \<Rightarrow> (matches @ found, st')))
       streams
       ([], self\<lparr>progress := \<lparr>completed = 0, total_count = int (length streams)\<rparr>\<rparr>, 0)"

section \<open>Rules and the match aggregator\<close>

text \<open>
  \<^verbatim>\<open>rules.py\<close> and \<^verbatim>\<open>match_finder.py\<close>. A rule is a dictionary; \<^verbatim>\<open>_add_match\<close> reads its
  keys \<^verbatim>\<open>name\<close>, \<^verbatim>\<open>display_name\<close> and \<^verbatim>\<open>confidence\<close>.
\<close>

record rule =
  rule_name :: string
  rule_display_name :: string
  rule_confidence :: string

text \<open>\<^verbatim>\<open>RuleMatch\<close>; \<^verbatim>\<open>match_name\<close> and \<^verbatim>\<open>match_values\<close> are its fields \<^verbatim>\<open>name\<close> and \<^verbatim>\<open>values\<close>.\<close>

record RuleMatch =
  match_name :: string
  display_name :: string
  confidence :: string
  location :: string
  match_values :: "string list"

text \<open>
  \<^verbatim>\<open>MatchConfig\<close>, after \<^verbatim>\<open>MatchFinder.__init__\<close> has compiled the regexes. A compiled
  regex stands for \<^verbatim>\<open>lambda line: [m.group() for m in regex.finditer(line)]\<close>; a token rule
  carries its token list. \<^verbatim>\<open>custom_patterns\<close> lists the values of the dictionary in
  insertion order.
\<close>

type_synonym finditer = "string \<Rightarrow> string list"

record MatchConfig =
  name_rules :: "(rule \<times> finditer) list"
  multi_name_rules :: "(rule \<times> finditer list) list"
  token_rules :: "(rule \<times> string list) list"
  regex_rules :: "(rule \<times> finditer) list"
  custom_patterns :: "(rule \<times> finditer) list"

text \<open>The token rules \<^verbatim>\<open>MatchConfig.__init__\<close> sets.\<close>

definition default_token_rules :: "(rule \<times> string list) list" where
  "default_token_rules =
     [(\<lparr>rule_name = ''api-key'', rule_display_name = ''API Key'', rule_confidence = ''high''\<rparr>,
       [''api'', ''key'', ''secret'', ''token'', ''auth'', ''password'', ''pwd'']),
      (\<lparr>rule_name = ''database-connection'',
        rule_display_name = ''Database Connection String'', rule_confidence = ''high''\<rparr>,
       [''jdbc:'', ''mysql://'', ''postgresql://'', ''mongodb://'', ''redis://'', ''oracle://'']),
      (\<lparr>rule_name = ''file-path'', rule_display_name = ''File Path'', rule_confidence = ''low''\<rparr>,
       [''/home/'', ''/var/'', ''C:'' @ [CHR 0x5C], ''D:'' @ [CHR 0x5C], ''/tmp/'', ''/usr/''])]"

text \<open>The two token families \<^verbatim>\<open>_token_match\<close> validates, as its two list literals.\<close>

definition connection_tokens :: "string list" where
  "connection_tokens =
     [''jdbc:'', ''mysql://'', ''postgresql://'', ''mongodb://'', ''redis://'', ''oracle://'']"

definition path_tokens :: "string list" where
  "path_tokens = [''/home/'', ''/var/'', ''c:'' @ [CHR 0x5C], ''d:'' @ [CHR 0x5C], ''/tmp/'', ''/usr/'']"

text \<open>The first test of \<^verbatim>\<open>_token_match\<close>: the token between two spaces in the padded line.\<close>

definition whole_word :: "string \<Rightarrow> string \<Rightarrow> bool" where
  "whole_word line_lower token_lower =
     str_in ('' '' @ token_lower @ '' '') ('' '' @ line_lower @ '' '')"

text \<open>\<^verbatim>\<open>_token_match\<close>\<close>

definition token_match :: "string \<Rightarrow> string \<Rightarrow> bool" where
  "token_match line token =
     (let line_lower = lower line; token_lower = lower token in
      if whole_word line_lower token_lower then True
      else if str_in token_lower line_lower then
        (if token_lower \<in> set connection_tokens then
           str_in ''://'' line_lower \<or> str_in ''jdbc:'' line_lower
         else if token_lower \<in> set path_tokens then
           list_ex (\<lambda>path. str_in path line_lower) [''/'', [CHR 0x5C]]
         else True)
      else False)"

text \<open>\<^verbatim>\<open>_normalize_value\<close>\<close>

definition normalize_value :: "string \<Rightarrow> string" where
  "normalize_value v = lower (sub_whitespace (strip v))"

text \<open>The key of \<^verbatim>\<open>self.matches\<close>: \<^verbatim>\<open>f"{rule['name']}:{location}"\<close>.\<close>

definition match_key :: "rule \<Rightarrow> string \<Rightarrow> string" where
  "match_key r loc = rule_name r @ '':'' @ loc"

text \<open>\<^verbatim>\<open>_add_match\<close>, on the dictionary \<^verbatim>\<open>self.matches\<close>.\<close>

definition add_match ::
  "rule \<Rightarrow> string \<Rightarrow> string \<Rightarrow> (string \<rightharpoonup> RuleMatch) \<Rightarrow> (string \<rightharpoonup> RuleMatch)" where
  "add_match r v loc matches =
     (let key = match_key r loc;
          m = (case matches key of
                 None \<Rightarrow> \<lparr>match_name = rule_name r, display_name = rule_display_name r,
                           confidence = rule_confidence r, location = loc, match_values = []\<rparr>
               | Some existing \<Rightarrow> existing);
          normalized_value = normalize_value v
      in if normalized_value \<notin> set (map normalize_value (match_values m))
         then matches(key \<mapsto> m\<lparr>match_values := match_values m @ [v]\<rparr>)
         else matches(key \<mapsto> m))"

text \<open>
  The calls of \<^verbatim>\<open>_add_match\<close> that \<^verbatim>\<open>check_line\<close> makes on one line, in order, as pairs of
  rule and value: the five loops of \<^verbatim>\<open>check_line\<close>, one after the other. A token rule
  adds the whole line once for every token that hits.
\<close>

definition regex_hits :: "string \<Rightarrow> (rule \<times> finditer) list \<Rightarrow> (rule \<times> string) list" where
  "regex_hits line rules = concat (map (\<lambda>(r, regex). map (Pair r) (regex line)) rules)"

definition hits :: "MatchConfig \<Rightarrow> string \<Rightarrow> (rule \<times> string) list" where
  "hits cfg line =
     regex_hits line (name_rules cfg) @
     concat (map (\<lambda>(r, regexes). concat (map (\<lambda>regex. map (Pair r) (regex line)) regexes))
               (multi_name_rules cfg)) @
     concat (map (\<lambda>(r, tokens). map (\<lambda>token. (r, line)) (filter (token_match line) tokens))
               (token_rules cfg)) @
     regex_hits line (regex_rules cfg) @
     regex_hits line (custom_patterns cfg)"

text \<open>\<^verbatim>\<open>check_line\<close>\<close>

definition check_line ::
  "MatchConfig \<Rightarrow> string \<Rightarrow> string \<Rightarrow> (string \<rightharpoonup> RuleMatch) \<Rightarrow> (string \<rightharpoonup> RuleMatch)" where
  "check_line cfg line loc matches = fold (\<lambda>(r, v). add_match r v loc) (hits cfg line) matches"

text \<open>A sequence of \<^verbatim>\<open>check_line(line, location)\<close> calls on one \<^verbatim>\<open>MatchFinder\<close>.\<close>

definition check_lines ::
  "MatchConfig \<Rightarrow> (string \<times> string) list \<Rightarrow> (string \<rightharpoonup> RuleMatch) \<Rightarrow> (string \<rightharpoonup> RuleMatch)" where
  "check_lines cfg calls matches = fold (\<lambda>(line, loc). check_line cfg line loc) calls matches"


text \<open>
  Two properties of the dictionary \<^verbatim>\<open>self.matches\<close>: no record lists two values with the same
  normalized form, and the record under a key lists a value with a given normalized form.
\<close>

definition deduplicated :: "(string \<rightharpoonup> RuleMatch) \<Rightarrow> bool" where
  "deduplicated matches =
     (\<forall>k m. matches k = Some m \<longrightarrow> distinct (map normalize_value (match_values m)))"

definition holds_value :: "(string \<rightharpoonup> RuleMatch) \<Rightarrow> string \<Rightarrow> string \<Rightarrow> bool" where
  "holds_value matches k n =
     (\<exists>m. matches k = Some m \<and> n \<in> set (map normalize_value (match_values m)))"

section \<open>Scan options and the pattern catalog\<close>

text \<open>
  \<^verbatim>\<open>ScanOptions\<close> (\<^verbatim>\<open>scan_opts.py\<close>) assigns attributes by name with \<^verbatim>\<open>setattr\<close>, so the object
  is its attribute dictionary, and an attribute holds a Python value of any type.
\<close>

datatype pyval = PNone | PBool bool | PInt int | PStr string | PList "string list"

type_synonym pyobject = "string \<rightharpoonup> pyval"

datatype py_error = AttributeError string | TypeError

text \<open>
  \<^verbatim>\<open>ScanOptions.__init__\<close>: the eleven declared parameters in their order (\<open>except'\<close> is
  the parameter \<^verbatim>\<open>except_\<close>), then the keyword arguments that match none of them
  (\<^verbatim>\<open>**kwargs\<close>), in the order given.
\<close>

definition ScanOptions_init ::
  "pyval \<Rightarrow> pyval \<Rightarrow> pyval \<Rightarrow> pyval \<Rightarrow> pyval \<Rightarrow> pyval \<Rightarrow> pyval \<Rightarrow> pyval \<Rightarrow> pyval \<Rightarrow> pyval \<Rightarrow> pyval
     \<Rightarrow> (string \<times> pyval) list \<Rightarrow> pyobject" where
  "ScanOptions_init show_data show_all sample_size processes only except' min_count pattern
       debug format only_patterns kwargs =
     fold (\<lambda>(k, v) self. self(k \<mapsto> v)) kwargs
       (Map.empty
          (''show_data'' \<mapsto> show_data,
           ''show_all'' \<mapsto> show_all,
           ''sample_size'' \<mapsto> sample_size,
           ''processes'' \<mapsto> processes,
           ''only'' \<mapsto> only,
           ''except_'' \<mapsto> except',
           ''min_count'' \<mapsto> min_count,
           ''pattern'' \<mapsto> pattern,
           ''debug'' \<mapsto> debug,
           ''format'' \<mapsto> format,
           ''only_patterns'' \<mapsto> only_patterns,
           ''except_patterns'' \<mapsto> PNone))"

text \<open>The names a keyword argument binds to a declared parameter, never to \<^verbatim>\<open>kwargs\<close>.\<close>

definition declared_parameters :: "string list" where
  "declared_parameters =
     [''show_data'', ''show_all'', ''sample_size'', ''processes'', ''only'', ''except_'',
      ''min_count'', ''pattern'', ''debug'', ''format'', ''only_patterns'']"

text \<open>\<^verbatim>\<open>Pattern\<close> (\<^verbatim>\<open>match_finder.py\<close>)\<close>

record Pattern =
  name :: string
  regex :: pyval
  description :: string

text \<open>
  The text of a regex literal. A backslash is written \<open>~\<close> here, and a letter beyond
  code point 255 as the escape \<^verbatim>\<open>\uXXXX\<close>, which \<^verbatim>\<open>re\<close> reads as that letter.
\<close>

definition regex_text :: "string \<Rightarrow> pyval" where
  "regex_text s = PStr (map (\<lambda>c. if c = CHR ''~'' then CHR 0x5C else c) s)"

definition vietnamese_letters :: string where
  "vietnamese_letters =
     ''~u00e0~u00e1~u1ea1~u1ea3~u00e3~u00e2~u1ea7~u1ea5~u1ead~u1ea9~u1eab~u0103~u1eb1~u1eaf'' @
     ''~u1eb7~u1eb3~u1eb5~u00e8~u00e9~u1eb9~u1ebb~u1ebd~u00ea~u1ec1~u1ebf~u1ec7~u1ec3~u1ec5'' @
     ''~u00ec~u00ed~u1ecb~u1ec9~u0129~u00f2~u00f3~u1ecd~u1ecf~u00f5~u00f4~u1ed3~u1ed1~u1ed9'' @
     ''~u1ed5~u1ed7~u01a1~u1edd~u1edb~u1ee3~u1edf~u1ee1~u00f9~u00fa~u1ee5~u1ee7~u0169~u01b0'' @
     ''~u1eeb~u1ee9~u1ef1~u1eed~u1eef~u1ef3~u00fd~u1ef5~u1ef7~u1ef9~u0111''"

text \<open>\<^verbatim>\<open>_get_default_patterns\<close>\<close>

definition get_default_patterns :: "Pattern list" where
  "get_default_patterns =
    [\<lparr> name = ''email'',
       regex = regex_text ''~b[a-zA-Z0-9._%+-]+@[a-zA-Z0-9.-]+~.[a-zA-Z]{2,}~b'',
       description = ''Email address'' \<rparr>,
     \<lparr> name = ''phone'',
       regex = regex_text ''~b(?:~+~d{1,3}~s?)?~(?~d{3}~)?[~s.-]?~d{3}[~s.-]?~d{4}~b'',
       description = ''Phone number'' \<rparr>,
     \<lparr> name = ''ssn'',
       regex = regex_text ''~b~d{3}[-~s]?~d{2}[-~s]?~d{4}~b'',
       description = ''Social Security Number'' \<rparr>,
     \<lparr> name = ''credit_card'',
       regex = regex_text
         (''(?:'' @
          ''4~d{3}(?:[~-~.~s_~u2013]~d{4}){3}'' @
          ''|5[1-5]~d{2}(?:[~-~.~s_~u2013]~d{4}){3}'' @
          ''|3[47]~d{2}[~-~.~s_~u2013]~d{6}[~-~.~s_~u2013]~d{5}'' @
          ''|6011[~-~.~s_~u2013]~d{4}[~-~.~s_~u2013]~d{4}[~-~.~s_~u2013]~d{4}'' @
          '')''),
       description = ''Credit card number (Visa, MasterCard, AmEx, Discover)'' \<rparr>,
     \<lparr> name = ''credit_card_masked'',
       regex = regex_text ''~b~d{4}[-~s]?[~*X]{4,8}[-~s]?~d{4}~b'',
       description = ''Masked credit card number'' \<rparr>,
     \<lparr> name = ''ipv4'',
       regex = regex_text ''~b~d{1,3}~.~d{1,3}~.~d{1,3}~.~d{1,3}~b'',
       description = ''IPv4 address'' \<rparr>,
     \<lparr> name = ''ipv6'',
       regex = regex_text ''~b(?:[A-F0-9]{1,4}:){7}[A-F0-9]{1,4}~b'',
       description = ''IPv6 address'' \<rparr>,
     \<lparr> name = ''url'',
       regex = regex_text ''https?://(?:[-~w.]|(?:%[~da-fA-F]{2}))+'',
       description = ''URL'' \<rparr>,
     \<lparr> name = ''mac'',
       regex = regex_text ''~b(?:[0-9A-Fa-f]{2}[:-]){5}(?:[0-9A-Fa-f]{2})~b'',
       description = ''MAC address'' \<rparr>,
     \<lparr> name = ''date'',
       regex = regex_text ''~b~d{4}[-/]~d{1,2}[-/]~d{1,2}~b'',
       description = ''Date (YYYY-MM-DD or YYYY/MM/DD)'' \<rparr>,
     \<lparr> name = ''time'',
       regex = regex_text ''~b~d{1,2}:~d{2}(?::~d{2})?(?:~s?[AP]M)?~b'',
       description = ''Time (HH:MM:SS or HH:MM AM/PM)'' \<rparr>,
     \<lparr> name = ''person_name'',
       regex = regex_text
         (''~b[A-Z][a-z'' @ vietnamese_letters @ '']+ [A-Z][a-z'' @ vietnamese_letters @ '']+~b''),
       description = ''Person name (Vietnamese and English)'' \<rparr>,
     \<lparr> name = ''company_name'',
       regex = regex_text
         (''~b[A-Z][a-zA-Z~s&.,~'-]+(?:Inc~.|Corp~.|LLC|Ltd~.|Company|Co~.'' @
          ''|Technologies|Technology|Systems|Solutions|Services)~b''),
       description = ''Company name'' \<rparr>]"

text \<open>Truth value of a Python value, as \<^verbatim>\<open>if x:\<close> takes it.\<close>

fun truthy :: "pyval \<Rightarrow> bool" where
  "truthy PNone = False"
| "truthy (PBool b) = b"
| "truthy (PInt i) = (i \<noteq> 0)"
| "truthy (PStr s) = (s \<noteq> [])"
| "truthy (PList xs) = (xs \<noteq> [])"

text \<open>
  \<^verbatim>\<open>s in x\<close> for a string \<^verbatim>\<open>s\<close>: membership in a list, containment in a string, and a
  \<^verbatim>\<open>TypeError\<close> on a value that is not a container.
\<close>

fun py_in :: "string \<Rightarrow> pyval \<Rightarrow> py_error + bool" where
  "py_in s (PList xs) = Inr (s \<in> set xs)"
| "py_in s (PStr t) = Inr (str_in s t)"
| "py_in s PNone = Inl TypeError"
| "py_in s (PBool b) = Inl TypeError"
| "py_in s (PInt i) = Inl TypeError"

text \<open>\<^verbatim>\<open>options.k\<close>\<close>

definition getattr :: "pyobject \<Rightarrow> string \<Rightarrow> py_error + pyval" where
  "getattr obj k = (case obj k of None \<Rightarrow> Inl (AttributeError k) | Some v \<Rightarrow> Inr v)"

text \<open>
  The comprehensions \<^verbatim>\<open>[p for p in patterns if p.name in names]\<close> (\<open>keep = True\<close>) and
  \<^verbatim>\<open>[p for p in patterns if p.name not in names]\<close> (\<open>keep = False\<close>).
\<close>

fun select_patterns :: "bool \<Rightarrow> pyval \<Rightarrow> Pattern list \<Rightarrow> py_error + Pattern list" where
  "select_patterns keep names [] = Inr []"
| "select_patterns keep names (p # ps) =
     (case py_in (name p) names of
        Inl e \<Rightarrow> Inl e
      | Inr found \<Rightarrow>
          (case select_patterns keep names ps of
             Inl e \<Rightarrow> Inl e
           | Inr rest \<Rightarrow> Inr (if found = keep then p # rest else rest)))"

text \<open>\<^verbatim>\<open>MatchFinder.get_patterns\<close>\<close>

definition get_patterns :: "pyobject \<Rightarrow> py_error + Pattern list" where
  "get_patterns options =
     (case getattr options ''only_patterns'' of
        Inl e \<Rightarrow> Inl e
      | Inr only_patterns \<Rightarrow>
          (case (if truthy only_patterns then
                   select_patterns True only_patterns get_default_patterns
                 else
                   (case getattr options ''except_patterns'' of
                      Inl e \<Rightarrow> Inl e
                    | Inr except_patterns \<Rightarrow>
                        if truthy except_patterns then
                          select_patterns False except_patterns get_default_patterns
                        else Inr get_default_patterns)) of
             Inl e \<Rightarrow> Inl e
           | Inr patterns \<Rightarrow>
               (case getattr options ''pattern'' of
                  Inl e \<Rightarrow> Inl e
                | Inr pattern \<Rightarrow>
                    Inr (if truthy pattern then
                           patterns @ [\<lparr>name = ''custom'', regex = pattern,
                                        description = ''Custom pattern''\<rparr>]
                         else patterns))))"


text \<open>
  The names a filter attribute of its declared type holds: \<^verbatim>\<open>None\<close> and the empty list hold
  none, a list of strings holds its elements.
\<close>

fun names_of :: "pyval \<Rightarrow> string list option" where
  "names_of PNone = Some []"
| "names_of (PList xs) = Some xs"
| "names_of (PBool b) = None"
| "names_of (PInt i) = None"
| "names_of (PStr s) = None"

text \<open>The ad-hoc pattern \<^verbatim>\<open>get_patterns\<close> appends for \<^verbatim>\<open>options.pattern\<close>.\<close>

definition custom_pattern :: "pyval \<Rightarrow> Pattern" where
  "custom_pattern pat = \<lparr>name = ''custom'', regex = pat, description = ''Custom pattern''\<rparr>"


section \<open>Properties of the matching pipeline\<close>

lemma is_value_cached_iff:
  "is_value_cached self k \<longleftrightarrow> get_cached_result self k \<noteq> None"
  by (simp add: is_value_cached_def get_cached_result_def)

lemma early_termination_check_cong:
  "early_termination self' = early_termination self \<Longrightarrow>
   early_termination_check self' v ps' = early_termination_check self v ps"
  by (simp add: early_termination_check_def)

text \<open>
  C1, as stated, fails: early rejection sits behind a second switch. With
  \<^verbatim>\<open>pattern_optimization\<close> off and \<^verbatim>\<open>early_termination\<close> on, \<^verbatim>\<open>_optimized_pattern_matching\<close>
  hands the value to \<^verbatim>\<open>_batch_match_patterns\<close> at once: the six-character value
  \<^verbatim>\<open>secret\<close>, with no digit, no \<^verbatim>\<open>@\<close> and no \<^verbatim>\<open>-\<close>, is matched by a pattern that finds it.
\<close>

theorem early_rejection_counterexample:
  "early_termination (init_defaults\<lparr>pattern_optimization := False\<rparr>)
   \<and> length ''secret'' < 10
   \<and> \<not> list_ex isdigit ''secret''
   \<and> \<not> str_in ''@'' ''secret'' \<and> \<not> str_in ''-'' ''secret''
   \<and> fst (optimized_pattern_matching id (init_defaults\<lparr>pattern_optimization := False\<rparr>)
            ''secret'' [(''token'', str_in ''secret'')])
       = [\<lparr>pattern_name = ''token'', matched_value = ''secret''\<rparr>]"
  by (simp add: init_defaults_def optimized_pattern_matching_def str_in_def sublist_code
        isdigit_def)

text \<open>
  C1, amended: when pattern optimization and early rejection are both enabled,
  \<^verbatim>\<open>_optimized_pattern_matching\<close> rejects a value exactly when the value is neither
  email-shaped (it contains both \<^verbatim>\<open>@\<close> and \<^verbatim>\<open>.\<close>) nor SSN-shaped (it contains \<^verbatim>\<open>-\<close> and
  has length 9 or 11) and its length is below 10 or above 1000, or it consists of digits
  only and is shorter than 13, or it contains no digit. A rejected value yields the
  empty match list and only the early-termination counter changes, whatever the
  compiled patterns are, so no regex is consulted; a value that is not rejected gets
  its cached result or the result of the pattern loop.
\<close>

theorem early_rejection_rule:
  assumes "pattern_optimization self" and "early_termination self"
  shows "(early_termination_check self v ps \<longleftrightarrow>
            \<not> ((str_in ''@'' v \<and> str_in ''.'' v)
                \<or> (str_in ''-'' v \<and> (length v = 9 \<or> length v = 11)))
            \<and> (length v < 10 \<or> length v > 1000 \<or> (list_all isdigit v \<and> length v < 13)
                \<or> \<not> list_ex isdigit v))
       \<and> (early_termination_check self v ps \<longrightarrow>
            optimized_pattern_matching h self v ps = ([], bump_early_terminations self))
       \<and> (\<not> early_termination_check self v ps \<longrightarrow>
            fst (optimized_pattern_matching h self v ps) =
              (case get_cached_result self (h v) of
                 Some cached \<Rightarrow> cached
               | None \<Rightarrow> match_loop (config_show_all self) v ps))"
proof (intro conjI impI)
  show "early_termination_check self v ps \<longleftrightarrow>
            \<not> ((str_in ''@'' v \<and> str_in ''.'' v)
                \<or> (str_in ''-'' v \<and> (length v = 9 \<or> length v = 11)))
            \<and> (length v < 10 \<or> length v > 1000 \<or> (list_all isdigit v \<and> length v < 13)
                \<or> \<not> list_ex isdigit v)"
    using assms(2)
    by (auto simp: early_termination_check_def Let_def str_isdigit_def any_isdigit_def)
next
  assume "early_termination_check self v ps"
  then show "optimized_pattern_matching h self v ps = ([], bump_early_terminations self)"
    using assms(1) by (simp add: optimized_pattern_matching_def)
next
  assume "\<not> early_termination_check self v ps"
  then show "fst (optimized_pattern_matching h self v ps) =
              (case get_cached_result self (h v) of
                 Some cached \<Rightarrow> cached
               | None \<Rightarrow> match_loop (config_show_all self) v ps)"
    using assms(1)
    by (auto simp: optimized_pattern_matching_def Let_def is_value_cached_iff
          bump_cache_misses_def split: option.splits)
qed

theorem early_rejection_rule_witness:
  "pattern_optimization init_defaults \<and> early_termination init_defaults
   \<and> early_termination_check init_defaults ''secret'' [(''token'', str_in ''secret'')]
   \<and> optimized_pattern_matching id init_defaults ''secret'' [(''token'', str_in ''secret'')]
       = ([], bump_early_terminations init_defaults)
   \<and> \<not> early_termination_check init_defaults ''a@b.co'' [(''token'', str_in ''secret'')]"
  using early_rejection_rule [of init_defaults "''secret''" "[(''token'', str_in ''secret'')]" id]
    early_rejection_rule [of init_defaults "''a@b.co''" "[(''token'', str_in ''secret'')]" id]
  by (simp add: init_defaults_def str_in_def sublist_code isdigit_def)

lemma opm_effect:
  assumes "pattern_optimization self" and "value_caching self"
    and "\<not> early_termination_check self v ps"
    and "optimized_pattern_matching h self v ps = (r, self')"
  shows "value_cache self' (h v) = Some r \<and> pattern_optimization self' \<and> value_caching self'
         \<and> early_termination self' = early_termination self
         \<and> (value_cache self (h v) = None \<longrightarrow> r = match_loop (config_show_all self) v ps)"
  using assms
  by (auto simp: optimized_pattern_matching_def Let_def is_value_cached_def get_cached_result_def
        cache_value_result_def bump_cache_hits_def bump_cache_misses_def
        split: option.splits if_splits)

lemma opm_cached:
  assumes "pattern_optimization self" and "value_caching self"
    and "\<not> early_termination_check self v ps"
    and "value_cache self (h v) = Some r"
  shows "optimized_pattern_matching h self v ps = (r, bump_cache_hits self)"
  using assms
  by (simp add: optimized_pattern_matching_def Let_def is_value_cached_def get_cached_result_def)

text \<open>
  C10: the value cache is keyed by the hash of the value alone. With pattern optimization
  and value caching enabled, once a value that survives early rejection has been
  evaluated under a pattern set \<open>ps1\<close>, evaluating it under any other pattern set \<open>ps2\<close>
  returns the result of the first evaluation and counts a cache hit; if the value was not
  cached before, that result is what the pattern loop finds under \<open>ps1\<close>. The witness
  has a second pattern set that alone finds nothing in the value.
\<close>

theorem value_cache_keyed_by_value_only:
  assumes "pattern_optimization self" and "value_caching self"
    and "\<not> early_termination_check self v ps1"
    and "optimized_pattern_matching h self v ps1 = (r1, self1)"
  shows "optimized_pattern_matching h self1 v ps2 = (r1, bump_cache_hits self1)
         \<and> (value_cache self (h v) = None \<longrightarrow> r1 = match_loop (config_show_all self) v ps1)"
proof -
  from opm_effect [OF assms]
  have c: "value_cache self1 (h v) = Some r1" and po: "pattern_optimization self1"
    and vc: "value_caching self1" and et: "early_termination self1 = early_termination self"
    and fresh: "value_cache self (h v) = None \<longrightarrow> r1 = match_loop (config_show_all self) v ps1"
    by simp_all
  from early_termination_check_cong [OF et, of v ps2 ps1] assms(3)
  have "\<not> early_termination_check self1 v ps2" by simp
  then have "optimized_pattern_matching h self1 v ps2 = (r1, bump_cache_hits self1)"
    using po vc c by (simp add: opm_cached)
  with fresh show ?thesis by simp
qed

theorem value_cache_keyed_by_value_only_witness:
  "fst (optimized_pattern_matching id
          (snd (optimized_pattern_matching id init_defaults ''alice@example.com''
                  [(''email'', str_in ''@'')]))
          ''alice@example.com'' [(''phone'', str_in ''555'')])
     = [\<lparr>pattern_name = ''email'', matched_value = ''alice@example.com''\<rparr>]
   \<and> fst (optimized_pattern_matching id init_defaults ''alice@example.com''
            [(''phone'', str_in ''555'')]) = []"
proof -
  let ?v = "''alice@example.com''"
  let ?ps1 = "[(''email'', str_in ''@'')]"
  let ?r1 = "[\<lparr>pattern_name = ''email'', matched_value = ?v\<rparr>]"
  let ?s1 = "snd (optimized_pattern_matching id init_defaults ?v ?ps1)"
  have a: "pattern_optimization init_defaults" "value_caching init_defaults"
    by (simp_all add: init_defaults_def)
  have b: "\<not> early_termination_check init_defaults ?v ?ps1"
    by (simp add: early_termination_check_def init_defaults_def str_in_def sublist_code)
  have c: "optimized_pattern_matching id init_defaults ?v ?ps1 = (?r1, ?s1)"
    by (simp add: optimized_pattern_matching_def early_termination_check_def init_defaults_def
          str_in_def sublist_code is_value_cached_def shape_skip_def Let_def)
  have d: "fst (optimized_pattern_matching id init_defaults ?v [(''phone'', str_in ''555'')]) = []"
    by (simp add: optimized_pattern_matching_def early_termination_check_def init_defaults_def
          str_in_def sublist_code is_value_cached_def shape_skip_def Let_def)
  from value_cache_keyed_by_value_only [OF a b c, of "[(''phone'', str_in ''555'')]"] d
  show ?thesis by simp
qed



section \<open>Properties of the match aggregator\<close>

lemma add_match_deduplicated:
  "deduplicated matches \<Longrightarrow> deduplicated (add_match r v loc matches)"
  by (auto simp: deduplicated_def add_match_def Let_def split: option.splits if_splits)

lemma add_match_holds_new:
  "holds_value (add_match r v loc matches) (match_key r loc) (normalize_value v)"
  by (auto simp: holds_value_def add_match_def Let_def split: option.splits)

lemma add_match_holds_old:
  "holds_value matches k n \<Longrightarrow> holds_value (add_match r v loc matches) k n"
  by (auto simp: holds_value_def add_match_def Let_def split: option.splits)

lemma fold_add_match_deduplicated:
  "deduplicated matches \<Longrightarrow> deduplicated (fold (\<lambda>(r, v). add_match r v loc) hs matches)"
  by (induction hs arbitrary: matches) (auto simp: add_match_deduplicated)

lemma check_lines_deduplicated:
  "deduplicated matches \<Longrightarrow> deduplicated (check_lines cfg calls matches)"
  unfolding check_lines_def
  by (induction calls arbitrary: matches) (auto simp: check_line_def fold_add_match_deduplicated)

lemma fold_add_match_holds_old:
  "holds_value matches k n \<Longrightarrow> holds_value (fold (\<lambda>(r, v). add_match r v loc) hs matches) k n"
  by (induction hs arbitrary: matches) (auto simp: add_match_holds_old)

lemma fold_add_match_holds_new:
  "(r, v) \<in> set hs \<Longrightarrow>
   holds_value (fold (\<lambda>(r, v). add_match r v loc) hs matches) (match_key r loc) (normalize_value v)"
proof (induction hs arbitrary: matches)
  case Nil
  then show ?case by simp
next
  case (Cons h hs)
  show ?case
  proof (cases "h = (r, v)")
    case True
    then show ?thesis
      by (simp add: fold_add_match_holds_old add_match_holds_new)
  next
    case False
    with Cons.prems have "(r, v) \<in> set hs" by simp
    then show ?thesis by (simp add: Cons.IH)
  qed
qed

lemma check_lines_holds_old:
  "holds_value matches k n \<Longrightarrow> holds_value (check_lines cfg calls matches) k n"
  unfolding check_lines_def
  by (induction calls arbitrary: matches) (auto simp: check_line_def fold_add_match_holds_old)

lemma check_lines_holds_new:
  "(line, loc) \<in> set calls \<Longrightarrow> (r, v) \<in> set (hits cfg line) \<Longrightarrow>
   holds_value (check_lines cfg calls matches) (match_key r loc) (normalize_value v)"
proof (induction calls arbitrary: matches)
  case Nil
  then show ?case by simp
next
  case (Cons c calls)
  show ?case
  proof (cases "c = (line, loc)")
    case True
    have "holds_value (check_line cfg line loc matches) (match_key r loc) (normalize_value v)"
      unfolding check_line_def using Cons.prems(2) by (rule fold_add_match_holds_new)
    then have "holds_value (check_lines cfg calls (check_line cfg line loc matches))
                 (match_key r loc) (normalize_value v)"
      by (rule check_lines_holds_old)
    with True show ?thesis by (simp add: check_lines_def)
  next
    case False
    with Cons.prems have "(line, loc) \<in> set calls" by simp
    from Cons.IH [OF this Cons.prems(2)] show ?thesis
      by (cases c) (simp add: check_lines_def)
  qed
qed

lemma one_entry:
  "distinct (map f xs) \<Longrightarrow> y \<in> set (map f xs) \<Longrightarrow> length (filter (\<lambda>x. f x = y) xs) = 1"
proof (induction xs)
  case Nil
  then show ?case by simp
next
  case (Cons x xs)
  show ?case
  proof (cases "f x = y")
    case True
    from Cons.prems(1) have "f x \<notin> f ` set xs" by simp
    with True have "\<And>z. z \<in> set xs \<Longrightarrow> f z \<noteq> y" by blast
    then have "filter (\<lambda>x. f x = y) xs = []"
      by (simp add: filter_empty_conv)
    with True show ?thesis by simp
  next
    case False
    with Cons show ?thesis by auto
  qed
qed

lemma add_match_appends_only_new:
  "\<exists>m'. add_match r v loc matches (match_key r loc) = Some m'
     \<and> match_values m' =
         (case matches (match_key r loc) of
            None \<Rightarrow> [v]
          | Some m \<Rightarrow>
              if normalize_value v \<in> set (map normalize_value (match_values m))
              then match_values m
              else match_values m @ [v])"
  by (auto simp: add_match_def Let_def split: option.splits)

text \<open>
  C2: after any sequence of \<^verbatim>\<open>check_line\<close> calls on a fresh \<^verbatim>\<open>MatchFinder\<close>, if the same
  rule matched \<open>v1\<close> and \<open>v2\<close> at the same location and their normalized forms are equal,
  the record under the key of that rule and location exists, no two of its values share a
  normalized form, and exactly one of its values has the normalized form of \<open>v1\<close> and
  \<open>v2\<close>. Every \<^verbatim>\<open>_add_match\<close> leaves the values of its record as they are when the
  normalized form of the new value is already there, and appends the value otherwise.
\<close>

theorem match_values_deduplicated:
  assumes "(line1, loc) \<in> set calls" and "(r, v1) \<in> set (hits cfg line1)"
    and "(line2, loc) \<in> set calls" and "(r, v2) \<in> set (hits cfg line2)"
    and "normalize_value v1 = normalize_value v2"
  shows "(\<exists>m. check_lines cfg calls Map.empty (match_key r loc) = Some m
           \<and> distinct (map normalize_value (match_values m))
           \<and> length (filter (\<lambda>x. normalize_value x = normalize_value v1) (match_values m)) = 1
           \<and> length (filter (\<lambda>x. normalize_value x = normalize_value v2) (match_values m)) = 1)
       \<and> (\<forall>r' v' loc' matches. \<exists>m'.
             add_match r' v' loc' matches (match_key r' loc') = Some m'
             \<and> match_values m' =
                 (case matches (match_key r' loc') of
                    None \<Rightarrow> [v']
                  | Some m \<Rightarrow>
                      if normalize_value v' \<in> set (map normalize_value (match_values m))
                      then match_values m
                      else match_values m @ [v']))"
proof -
  have "deduplicated (check_lines cfg calls Map.empty)"
    by (rule check_lines_deduplicated) (simp add: deduplicated_def)
  moreover from assms(1,2)
  have "holds_value (check_lines cfg calls Map.empty) (match_key r loc) (normalize_value v1)"
    by (rule check_lines_holds_new)
  ultimately obtain m where m: "check_lines cfg calls Map.empty (match_key r loc) = Some m"
    and d: "distinct (map normalize_value (match_values m))"
    and p: "normalize_value v1 \<in> set (map normalize_value (match_values m))"
    by (auto simp: deduplicated_def holds_value_def)
  from one_entry [OF d p] assms(5) m d
  have "\<exists>m. check_lines cfg calls Map.empty (match_key r loc) = Some m
           \<and> distinct (map normalize_value (match_values m))
           \<and> length (filter (\<lambda>x. normalize_value x = normalize_value v1) (match_values m)) = 1
           \<and> length (filter (\<lambda>x. normalize_value x = normalize_value v2) (match_values m)) = 1"
    by simp
  with add_match_appends_only_new show ?thesis by blast
qed

theorem match_values_deduplicated_witness:
  "\<exists>m. check_lines
          \<lparr>name_rules = [], multi_name_rules = [], token_rules = default_token_rules,
           regex_rules = [], custom_patterns = []\<rparr>
          [(''a  Pwd'', ''t.c''), (''A pwd '', ''t.c'')] Map.empty ''api-key:t.c'' = Some m
       \<and> match_values m = [''a  Pwd'']"
proof -
  let ?cfg = "\<lparr>name_rules = [], multi_name_rules = [], token_rules = default_token_rules,
           regex_rules = [], custom_patterns = []\<rparr>"
  let ?r = "\<lparr>rule_name = ''api-key'', rule_display_name = ''API Key'',
            rule_confidence = ''high''\<rparr>"
  let ?calls = "[(''a  Pwd'', ''t.c''), (''A pwd '', ''t.c'')]"
  have c1: "(''a  Pwd'', ''t.c'') \<in> set ?calls" by simp
  have c2: "(''A pwd '', ''t.c'') \<in> set ?calls" by simp
  have h1: "(?r, ''a  Pwd'') \<in> set (hits ?cfg ''a  Pwd'')" by code_simp
  have h2: "(?r, ''A pwd '') \<in> set (hits ?cfg ''A pwd '')" by code_simp
  have n: "normalize_value ''a  Pwd'' = normalize_value ''A pwd ''" by code_simp
  have k: "match_key ?r ''t.c'' = ''api-key:t.c''" by code_simp
  have v: "map_option match_values (check_lines ?cfg ?calls Map.empty ''api-key:t.c'')
             = Some [''a  Pwd'']" by code_simp
  from match_values_deduplicated [OF c1 h1 c2 h2 n] k v show ?thesis by auto
qed

section \<open>Properties of token matching\<close>

lemma padded_sublist:
  assumes "sublist ('' '' @ t @ '' '') ('' '' @ l @ '' '')"
  shows "sublist t l"
proof -
  from assms obtain ps ss where e: "'' '' @ l @ '' '' = ps @ ('' '' @ t @ '' '') @ ss"
    by (auto simp: sublist_def)
  obtain P where P: "ps @ '' '' = CHR '' '' # P"
    using e by (cases ps) auto
  obtain S where S: "'' '' @ ss = S @ '' ''"
  proof (cases ss rule: rev_cases)
    case Nil
    then have "'' '' @ ss = [] @ '' ''" by simp
    then show ?thesis by (rule that)
  next
    case (snoc ss' x)
    with e have "x = CHR '' ''" by auto
    with snoc have "'' '' @ ss = ('' '' @ ss') @ '' ''" by simp
    then show ?thesis by (rule that)
  qed
  from e have "CHR '' '' # (l @ '' '') = (ps @ '' '') @ t @ ('' '' @ ss)" by simp
  with P S have "CHR '' '' # (l @ '' '') = CHR '' '' # ((P @ t @ S) @ '' '')" by simp
  then have "l = P @ t @ S" by simp
  then show ?thesis by (auto simp: sublist_def)
qed

lemma sublist_transitive: "sublist a b \<Longrightarrow> sublist b c \<Longrightarrow> sublist a c"
  by (rule sublist_order.order_trans)

lemma connection_token_has_marker:
  "t \<in> set connection_tokens \<Longrightarrow> sublist ''://'' t \<or> sublist ''jdbc:'' t"
  by (auto simp: connection_tokens_def sublist_code)

lemma path_token_has_separator:
  "t \<in> set path_tokens \<Longrightarrow> sublist ''/'' t \<or> sublist [CHR 0x5C] t"
  by (auto simp: path_tokens_def sublist_code)


lemma whole_word_substring:
  "whole_word l t \<Longrightarrow> str_in t l"
  unfolding whole_word_def str_in_def by (rule padded_sublist)

lemma connection_token_validates:
  assumes "t \<in> set connection_tokens" and "str_in t l"
  shows "str_in ''://'' l \<or> str_in ''jdbc:'' l"
proof -
  from assms(1) have "sublist ''://'' t \<or> sublist ''jdbc:'' t"
    by (rule connection_token_has_marker)
  then show ?thesis
  proof
    assume "sublist ''://'' t"
    then have "sublist ''://'' l" using assms(2) unfolding str_in_def by (rule sublist_transitive)
    then show ?thesis by (simp add: str_in_def)
  next
    assume "sublist ''jdbc:'' t"
    then have "sublist ''jdbc:'' l" using assms(2) unfolding str_in_def by (rule sublist_transitive)
    then show ?thesis by (simp add: str_in_def)
  qed
qed

lemma path_token_validates:
  assumes "t \<in> set path_tokens" and "str_in t l"
  shows "str_in ''/'' l \<or> str_in [CHR 0x5C] l"
proof -
  from assms(1) have "sublist ''/'' t \<or> sublist [CHR 0x5C] t"
    by (rule path_token_has_separator)
  then show ?thesis
  proof
    assume "sublist ''/'' t"
    then have "sublist ''/'' l" using assms(2) unfolding str_in_def by (rule sublist_transitive)
    then show ?thesis by (simp add: str_in_def)
  next
    assume "sublist [CHR 0x5C] t"
    then have "sublist [CHR 0x5C] l" using assms(2) unfolding str_in_def by (rule sublist_transitive)
    then show ?thesis by (simp add: str_in_def)
  qed
qed

lemma token_match_unfold:
  "token_match line token =
     (whole_word (lower line) (lower token) \<or>
      (str_in (lower token) (lower line) \<and>
         (if lower token \<in> set connection_tokens
          then str_in ''://'' (lower line) \<or> str_in ''jdbc:'' (lower line)
          else if lower token \<in> set path_tokens
          then str_in ''/'' (lower line) \<or> str_in [CHR 0x5C] (lower line)
          else True)))"
  by (simp add: token_match_def Let_def)

lemma token_match_iff_substring:
  "token_match line token \<longleftrightarrow> str_in (lower token) (lower line)"
proof
  assume "token_match line token"
  then show "str_in (lower token) (lower line)"
    unfolding token_match_unfold using whole_word_substring by blast
next
  assume s: "str_in (lower token) (lower line)"
  show "token_match line token"
  proof (cases "lower token \<in> set connection_tokens")
    case True
    from connection_token_validates [OF True s] True s show ?thesis
      unfolding token_match_unfold by simp
  next
    case False
    show ?thesis
    proof (cases "lower token \<in> set path_tokens")
      case True
      from path_token_validates [OF True s] True False s show ?thesis
        unfolding token_match_unfold by simp
    next
      case no: False
      with False s show ?thesis unfolding token_match_unfold by simp
    qed
  qed
qed

text \<open>
  C3, as stated, fails: a plain substring occurrence is enough. The token \<^verbatim>\<open>key\<close> of the
  rule \<^verbatim>\<open>api-key\<close> hits in the line \<^verbatim>\<open>monkey\<close>, where it is not a whole word and belongs
  to neither of the two validated families.
\<close>

theorem token_match_counterexample:
  "''key'' \<in> set (snd (default_token_rules ! 0))
   \<and> token_match ''monkey'' ''key''
   \<and> \<not> whole_word (lower ''monkey'') (lower ''key'')
   \<and> lower ''key'' \<notin> set connection_tokens
   \<and> lower ''key'' \<notin> set path_tokens"
  by code_simp

text \<open>
  C3, amended: a token hits only if its lower-cased form occurs in the lower-cased line;
  it hits whenever it occurs there as a whole word between spaces; for a token outside
  the connection-string and path-prefix families a plain substring occurrence is by
  itself sufficient; a connection-string token hits only in a line that contains
  \<^verbatim>\<open>://\<close> or \<^verbatim>\<open>jdbc:\<close>, and a path-prefix token only in a line that contains a path
  separator.
\<close>

theorem token_match_rule:
  "(token_match line token \<longrightarrow> str_in (lower token) (lower line))
   \<and> (whole_word (lower line) (lower token) \<longrightarrow> token_match line token)
   \<and> (lower token \<notin> set connection_tokens \<and> lower token \<notin> set path_tokens
        \<and> str_in (lower token) (lower line) \<longrightarrow> token_match line token)
   \<and> (lower token \<in> set connection_tokens \<and> token_match line token \<longrightarrow>
        str_in ''://'' (lower line) \<or> str_in ''jdbc:'' (lower line))
   \<and> (lower token \<in> set path_tokens \<and> token_match line token \<longrightarrow>
        str_in ''/'' (lower line) \<or> str_in [CHR 0x5C] (lower line))"
proof (intro conjI impI)
  show "token_match line token \<Longrightarrow> str_in (lower token) (lower line)"
    by (simp add: token_match_iff_substring)
  show "whole_word (lower line) (lower token) \<Longrightarrow> token_match line token"
    by (simp add: token_match_unfold)
  show "lower token \<notin> set connection_tokens \<and> lower token \<notin> set path_tokens
        \<and> str_in (lower token) (lower line) \<Longrightarrow> token_match line token"
    by (simp add: token_match_iff_substring)
  show "lower token \<in> set connection_tokens \<and> token_match line token \<Longrightarrow>
        str_in ''://'' (lower line) \<or> str_in ''jdbc:'' (lower line)"
    using connection_token_validates [of "lower token" "lower line"]
    by (simp add: token_match_iff_substring)
  show "lower token \<in> set path_tokens \<and> token_match line token \<Longrightarrow>
        str_in ''/'' (lower line) \<or> str_in [CHR 0x5C] (lower line)"
    using path_token_validates [of "lower token" "lower line"]
    by (simp add: token_match_iff_substring)
qed


theorem token_match_rule_witness:
  "token_match ''monkey'' ''key'' \<and> \<not> token_match ''money'' ''key''
   \<and> token_match ''my key'' ''Key''
   \<and> token_match ''use jdbc: now'' ''JDBC:'' \<and> str_in ''jdbc:'' (lower ''use jdbc: now'')
   \<and> token_match ''cd /tmp/ now'' ''/tmp/'' \<and> str_in ''/'' (lower ''cd /tmp/ now'')"
proof -
  have a: "lower ''key'' \<notin> set connection_tokens \<and> lower ''key'' \<notin> set path_tokens
           \<and> str_in (lower ''key'') (lower ''monkey'')"
    by code_simp
  have b: "\<not> str_in (lower ''key'') (lower ''money'')"
    by code_simp
  have c: "whole_word (lower ''my key'') (lower ''Key'')"
    by code_simp
  have d: "whole_word (lower ''use jdbc: now'') (lower ''JDBC:'')
           \<and> lower ''JDBC:'' \<in> set connection_tokens \<and> \<not> str_in ''://'' (lower ''use jdbc: now'')"
    by code_simp
  have e: "whole_word (lower ''cd /tmp/ now'') (lower ''/tmp/'')
           \<and> lower ''/tmp/'' \<in> set path_tokens \<and> \<not> str_in [CHR 0x5C] (lower ''cd /tmp/ now'')"
    by code_simp
  from token_match_rule [of "''monkey''" "''key''"] a
  have t1: "token_match ''monkey'' ''key''" by blast
  from token_match_rule [of "''money''" "''key''"] b
  have t2: "\<not> token_match ''money'' ''key''" by blast
  from token_match_rule [of "''my key''" "''Key''"] c
  have t3: "token_match ''my key'' ''Key''" by blast
  from token_match_rule [of "''use jdbc: now''" "''JDBC:''"] d
  have t4: "token_match ''use jdbc: now'' ''JDBC:'' \<and> str_in ''jdbc:'' (lower ''use jdbc: now'')"
    by blast
  from token_match_rule [of "''cd /tmp/ now''" "''/tmp/''"] e
  have t5: "token_match ''cd /tmp/ now'' ''/tmp/'' \<and> str_in ''/'' (lower ''cd /tmp/ now'')"
    by blast
  from t1 t2 t3 t4 t5 show ?thesis by simp
qed

section \<open>Properties of the connection retry\<close>

lemma connect_loop_attempts:
  "attempts_made (connect_loop backend self attempt n slept) \<le> n + nat (retry_attempts self - attempt)"
proof (induction backend self attempt n slept rule: connect_loop.induct)
  case (1 backend self attempt n slept)
  show ?case
  proof (cases "attempt < retry_attempts self")
    case False
    then show ?thesis by simp
  next
    case True
    show ?thesis
    proof (cases "backend n")
      case Succeeds
      with True show ?thesis by simp
    next
      case (Fails x)
      show ?thesis
      proof (cases x)
        case (OtherError e)
        with True Fails show ?thesis by simp
      next
        case (OracleError e)
        show ?thesis
        proof (cases "attempt + 1 \<ge> retry_attempts self")
          case last: True
          with True Fails OracleError show ?thesis by simp
        next
          case more: False
          from "1.IH" [OF True Fails OracleError refl more]
          have "attempts_made (connect_loop backend (self\<lparr>retry_delay := retry_delay self * 2\<rparr>)
                  (attempt + 1) (n + 1) (slept @ [retry_delay self]))
                \<le> n + 1 + nat (retry_attempts self - (attempt + 1))"
            by simp
          with True Fails OracleError more show ?thesis by simp
        qed
      qed
    qed
  qed
qed

lemma doubling_shift:
  "d # map (\<lambda>i. (d * 2) * 2 ^ i) [0..<k] = map (\<lambda>i. (d::int) * 2 ^ i) [0..<Suc k]"
proof -
  have "map (\<lambda>i. d * 2 ^ i) [0..<Suc k] = d # map (\<lambda>i. d * 2 ^ i) (map Suc [0..<k])"
    by (simp only: upt_conv_Cons [of 0 "Suc k"] map_Suc_upt) simp
  then show ?thesis by (simp add: comp_def mult.assoc)
qed

lemma connect_loop_sleeps:
  "\<exists>k. sleeps (connect_loop backend self attempt n slept)
          = slept @ map (\<lambda>i. retry_delay self * 2 ^ i) [0..<k]
       \<and> retry_delay (adapter (connect_loop backend self attempt n slept))
          = retry_delay self * 2 ^ k"
proof (induction backend self attempt n slept rule: connect_loop.induct)
  case (1 backend self attempt n slept)
  have stop: "sleeps r = slept \<Longrightarrow> retry_delay (adapter r) = retry_delay self \<Longrightarrow>
     \<exists>k. sleeps r = slept @ map (\<lambda>i. retry_delay self * 2 ^ i) [0..<k]
       \<and> retry_delay (adapter r) = retry_delay self * 2 ^ k" for r
    by (rule exI [of _ 0]) simp
  show ?case
  proof (cases "attempt < retry_attempts self")
    case False
    then show ?thesis by (intro stop) simp_all
  next
    case True
    show ?thesis
    proof (cases "backend n")
      case Succeeds
      with True show ?thesis by (intro stop) simp_all
    next
      case (Fails x)
      show ?thesis
      proof (cases x)
        case (OtherError e)
        with True Fails show ?thesis by (intro stop) simp_all
      next
        case (OracleError e)
        show ?thesis
        proof (cases "attempt + 1 \<ge> retry_attempts self")
          case last: True
          with True Fails OracleError show ?thesis by (intro stop) simp_all
        next
          case more: False
          let ?self' = "self\<lparr>retry_delay := retry_delay self * 2\<rparr>"
          let ?r = "connect_loop backend ?self' (attempt + 1) (n + 1) (slept @ [retry_delay self])"
          from "1.IH" [OF True Fails OracleError refl more]
          obtain k where k: "sleeps ?r = (slept @ [retry_delay self])
                               @ map (\<lambda>i. retry_delay ?self' * 2 ^ i) [0..<k]"
            and dl: "retry_delay (adapter ?r) = retry_delay ?self' * 2 ^ k"
            by blast
          have eq: "connect_loop backend self attempt n slept = ?r"
            using True Fails OracleError more by simp
          from k have "sleeps ?r = slept @ map (\<lambda>i. retry_delay self * 2 ^ i) [0..<Suc k]"
            using doubling_shift [of "retry_delay self" k] by simp
          moreover from dl have "retry_delay (adapter ?r) = retry_delay self * 2 ^ Suc k"
            by simp
          ultimately show ?thesis unfolding eq by blast
        qed
      qed
    qed
  qed
qed

lemma connect_loop_all_fail:
  "retry_attempts self - attempt = int (Suc m) \<Longrightarrow>
   (\<forall>i \<le> m. \<exists>e. backend (n + i) = Fails (OracleError e)) \<Longrightarrow>
   (\<exists>e. ending (connect_loop backend self attempt n slept) = Raised (OracleError e)
        \<and> backend (n + m) = Fails (OracleError e))
   \<and> attempts_made (connect_loop backend self attempt n slept) = n + Suc m"
proof (induction m arbitrary: self attempt n slept)
  case 0
  from "0.prems"(2) obtain e where e: "backend n = Fails (OracleError e)" by auto
  with "0.prems"(1) show ?case by simp
next
  case (Suc m)
  from Suc.prems(2) obtain e where e: "backend n = Fails (OracleError e)" by force
  let ?self' = "self\<lparr>retry_delay := retry_delay self * 2\<rparr>"
  have eq: "connect_loop backend self attempt n slept
            = connect_loop backend ?self' (attempt + 1) (n + 1) (slept @ [retry_delay self])"
    using Suc.prems(1) e by simp
  have r: "retry_attempts ?self' - (attempt + 1) = int (Suc m)"
    using Suc.prems(1) by simp
  have f: "\<forall>i \<le> m. \<exists>e. backend (n + 1 + i) = Fails (OracleError e)"
  proof (intro allI impI)
    fix i assume "i \<le> m"
    then have "Suc i \<le> Suc m" by simp
    with Suc.prems(2) have "\<exists>e. backend (n + Suc i) = Fails (OracleError e)" by blast
    then show "\<exists>e. backend (n + 1 + i) = Fails (OracleError e)" by simp
  qed
  from Suc.IH [OF r f, of "slept @ [retry_delay self]"] show ?case
    unfolding eq by simp
qed

lemma connect_loop_last_succeeds:
  "retry_attempts self - attempt = int (Suc m) \<Longrightarrow>
   (\<forall>i < m. \<exists>e. backend (n + i) = Fails (OracleError e)) \<Longrightarrow>
   backend (n + m) = Succeeds \<Longrightarrow>
   ending (connect_loop backend self attempt n slept) = Connected
   \<and> attempts_made (connect_loop backend self attempt n slept) = n + Suc m"
proof (induction m arbitrary: self attempt n slept)
  case 0
  then show ?case by simp
next
  case (Suc m)
  from Suc.prems(2) obtain e where e: "backend n = Fails (OracleError e)" by force
  let ?self' = "self\<lparr>retry_delay := retry_delay self * 2\<rparr>"
  have eq: "connect_loop backend self attempt n slept
            = connect_loop backend ?self' (attempt + 1) (n + 1) (slept @ [retry_delay self])"
    using Suc.prems(1) e by simp
  have r: "retry_attempts ?self' - (attempt + 1) = int (Suc m)"
    using Suc.prems(1) by simp
  have f: "\<forall>i < m. \<exists>e. backend (n + 1 + i) = Fails (OracleError e)"
  proof (intro allI impI)
    fix i assume "i < m"
    then have "Suc i < Suc m" by simp
    with Suc.prems(2) have "\<exists>e. backend (n + Suc i) = Fails (OracleError e)" by blast
    then show "\<exists>e. backend (n + 1 + i) = Fails (OracleError e)" by simp
  qed
  have s: "backend (n + 1 + m) = Succeeds" using Suc.prems(3) by simp
  from Suc.IH [OF r f s, of "slept @ [retry_delay self]"] show ?case
    unfolding eq by simp
qed

lemma connect_loop_sleep_count:
  "(attempt < retry_attempts self \<longrightarrow>
      length (sleeps (connect_loop backend self attempt n slept)) + n + 1
        = attempts_made (connect_loop backend self attempt n slept) + length slept)
   \<and> (\<not> attempt < retry_attempts self \<longrightarrow>
      attempts_made (connect_loop backend self attempt n slept) = n
      \<and> sleeps (connect_loop backend self attempt n slept) = slept)"
proof (induction backend self attempt n slept rule: connect_loop.induct)
  case (1 backend self attempt n slept)
  show ?case
  proof (cases "attempt < retry_attempts self")
    case False
    then show ?thesis by simp
  next
    case True
    show ?thesis
    proof (cases "backend n")
      case Succeeds
      with True show ?thesis by simp
    next
      case (Fails x)
      show ?thesis
      proof (cases x)
        case (OtherError e)
        with True Fails show ?thesis by simp
      next
        case (OracleError e)
        show ?thesis
        proof (cases "attempt + 1 \<ge> retry_attempts self")
          case last: True
          with True Fails OracleError show ?thesis by simp
        next
          case more: False
          let ?r = "connect_loop backend (self\<lparr>retry_delay := retry_delay self * 2\<rparr>)
                      (attempt + 1) (n + 1) (slept @ [retry_delay self])"
          from more have lt: "attempt + 1 < retry_attempts (self\<lparr>retry_delay := retry_delay self * 2\<rparr>)"
            by simp
          from "1.IH" [OF True Fails OracleError refl more] lt
          have "length (sleeps ?r) + (n + 1) + 1
                  = attempts_made ?r + length (slept @ [retry_delay self])"
            by blast
          moreover have "connect_loop backend self attempt n slept = ?r"
            using True Fails OracleError more by simp
          ultimately show ?thesis using True by simp
        qed
      qed
    qed
  qed
qed

lemma connect_loop_earlier_fail:
  "n \<le> i \<Longrightarrow> i + 1 < attempts_made (connect_loop backend self attempt n slept) \<Longrightarrow>
   \<exists>e. backend i = Fails (OracleError e)"
proof (induction backend self attempt n slept rule: connect_loop.induct)
  case (1 backend self attempt n slept)
  show ?case
  proof (cases "attempt < retry_attempts self")
    case False
    with "1.prems" show ?thesis by simp
  next
    case True
    show ?thesis
    proof (cases "backend n")
      case Succeeds
      with True "1.prems" show ?thesis by simp
    next
      case (Fails x)
      show ?thesis
      proof (cases x)
        case (OtherError e)
        with True Fails "1.prems" show ?thesis by simp
      next
        case (OracleError e)
        show ?thesis
        proof (cases "attempt + 1 \<ge> retry_attempts self")
          case last: True
          with True Fails OracleError "1.prems" show ?thesis by simp
        next
          case more: False
          have eq: "connect_loop backend self attempt n slept
                    = connect_loop backend (self\<lparr>retry_delay := retry_delay self * 2\<rparr>)
                        (attempt + 1) (n + 1) (slept @ [retry_delay self])"
            using True Fails OracleError more by simp
          show ?thesis
          proof (cases "i = n")
            case True
            with Fails OracleError show ?thesis by simp
          next
            case False
            with "1.prems"(1) have "n + 1 \<le> i" by simp
            moreover from "1.prems"(2) have "i + 1 < attempts_made
                (connect_loop backend (self\<lparr>retry_delay := retry_delay self * 2\<rparr>)
                        (attempt + 1) (n + 1) (slept @ [retry_delay self]))"
              unfolding eq .
            ultimately show ?thesis
              by (rule "1.IH" [OF True Fails OracleError refl more])
          qed
        qed
      qed
    qed
  qed
qed

text \<open>
  C4: \<^verbatim>\<open>connect\<close> makes at most \<^verbatim>\<open>retry_attempts\<close> attempts. Every attempt but the last
  failed with \<^verbatim>\<open>cx_Oracle.Error\<close> and was followed by one sleep, and the delays slept are
  the configured delay doubled after each failed attempt. With a retry budget of at
  least one: if the backend raises \<^verbatim>\<open>cx_Oracle.Error\<close> on its first \<^verbatim>\<open>retry_attempts - 1\<close>
  attempts and then succeeds, \<^verbatim>\<open>connect\<close> returns connected after \<^verbatim>\<open>retry_attempts\<close>
  attempts; if it raises on the first \<^verbatim>\<open>retry_attempts\<close> attempts, \<^verbatim>\<open>connect\<close> raises that
  error after \<^verbatim>\<open>retry_attempts\<close> attempts; in both cases it has slept
  \<^verbatim>\<open>retry_attempts - 1\<close> times, the delays being \<open>d\<close>, \<open>2d\<close>, \<open>4d\<close> and so on.
\<close>

theorem connect_retry_budget:
  "attempts_made (connect backend self) \<le> nat (retry_attempts self)
   \<and> sleeps (connect backend self)
       = map (\<lambda>i. retry_delay self * 2 ^ i) [0..<length (sleeps (connect backend self))]
   \<and> (0 < attempts_made (connect backend self)
       \<longrightarrow> length (sleeps (connect backend self)) + 1 = attempts_made (connect backend self))
   \<and> (\<forall>i. i + 1 < attempts_made (connect backend self)
       \<longrightarrow> (\<exists>e. backend i = Fails (OracleError e)))
   \<and> (0 < retry_attempts self
        \<and> (\<forall>i < nat (retry_attempts self) - 1. \<exists>e. backend i = Fails (OracleError e))
        \<and> backend (nat (retry_attempts self) - 1) = Succeeds
       \<longrightarrow> ending (connect backend self) = Connected
           \<and> attempts_made (connect backend self) = nat (retry_attempts self)
           \<and> sleeps (connect backend self)
               = map (\<lambda>i. retry_delay self * 2 ^ i) [0..<nat (retry_attempts self) - 1])
   \<and> (0 < retry_attempts self
        \<and> (\<forall>i < nat (retry_attempts self). \<exists>e. backend i = Fails (OracleError e))
       \<longrightarrow> (\<exists>e. ending (connect backend self) = Raised (OracleError e))
           \<and> attempts_made (connect backend self) = nat (retry_attempts self)
           \<and> sleeps (connect backend self)
               = map (\<lambda>i. retry_delay self * 2 ^ i) [0..<nat (retry_attempts self) - 1])"
proof -
  let ?r = "connect backend self"
  have A: "attempts_made ?r \<le> nat (retry_attempts self)"
    using connect_loop_attempts [of backend self 0 0 "[]"] by (simp add: connect_def)
  from connect_loop_sleeps [of backend self 0 0 "[]"]
  obtain k where k: "sleeps ?r = map (\<lambda>i. retry_delay self * 2 ^ i) [0..<k]"
    by (auto simp: connect_def)
  then have "length (sleeps ?r) = k" by simp
  with k have B: "sleeps ?r = map (\<lambda>i. retry_delay self * 2 ^ i) [0..<length (sleeps ?r)]"
    by simp
  have L: "length (sleeps ?r) + 1 = attempts_made ?r" if "0 < attempts_made ?r"
    using connect_loop_sleep_count [of 0 self backend 0 "[]"] that
    by (cases "0 < retry_attempts self") (simp_all add: connect_def)
  have F: "\<forall>i. i + 1 < attempts_made ?r \<longrightarrow> (\<exists>e. backend i = Fails (OracleError e))"
    using connect_loop_earlier_fail [of 0 _ backend self 0 "[]"] by (simp add: connect_def)
  have S: "sleeps ?r = map (\<lambda>i. retry_delay self * 2 ^ i) [0..<nat (retry_attempts self) - 1]"
    if "0 < retry_attempts self" and "attempts_made ?r = nat (retry_attempts self)"
  proof -
    from that have "0 < attempts_made ?r" by simp
    from L [OF this] that(2) have "length (sleeps ?r) = nat (retry_attempts self) - 1" by simp
    with B show ?thesis by simp
  qed
  have C: "ending ?r = Connected \<and> attempts_made ?r = nat (retry_attempts self)"
    if a: "0 < retry_attempts self
        \<and> (\<forall>i < nat (retry_attempts self) - 1. \<exists>e. backend i = Fails (OracleError e))
        \<and> backend (nat (retry_attempts self) - 1) = Succeeds"
  proof -
    from a obtain m where m: "nat (retry_attempts self) = Suc m"
      by (cases "nat (retry_attempts self)") auto
    with a have r: "retry_attempts self - 0 = int (Suc m)" by linarith
    from a m have f: "\<forall>i < m. \<exists>e. backend (0 + i) = Fails (OracleError e)" by simp
    from a m have s: "backend (0 + m) = Succeeds" by simp
    from connect_loop_last_succeeds [OF r f s, of "[]"] m
    show ?thesis by (simp add: connect_def)
  qed
  have D: "(\<exists>e. ending ?r = Raised (OracleError e))
           \<and> attempts_made ?r = nat (retry_attempts self)"
    if a: "0 < retry_attempts self
        \<and> (\<forall>i < nat (retry_attempts self). \<exists>e. backend i = Fails (OracleError e))"
  proof -
    from a obtain m where m: "nat (retry_attempts self) = Suc m"
      by (cases "nat (retry_attempts self)") auto
    with a have r: "retry_attempts self - 0 = int (Suc m)" by linarith
    from a m have f: "\<forall>i \<le> m. \<exists>e. backend (0 + i) = Fails (OracleError e)"
      by (simp add: less_Suc_eq_le)
    from connect_loop_all_fail [OF r f, of "[]"] m
    show ?thesis by (auto simp: connect_def)
  qed
  have C': "ending ?r = Connected \<and> attempts_made ?r = nat (retry_attempts self)
            \<and> sleeps ?r = map (\<lambda>i. retry_delay self * 2 ^ i) [0..<nat (retry_attempts self) - 1]"
    if a: "0 < retry_attempts self
        \<and> (\<forall>i < nat (retry_attempts self) - 1. \<exists>e. backend i = Fails (OracleError e))
        \<and> backend (nat (retry_attempts self) - 1) = Succeeds"
    using C [OF a] S a by blast
  have D': "(\<exists>e. ending ?r = Raised (OracleError e))
           \<and> attempts_made ?r = nat (retry_attempts self)
           \<and> sleeps ?r = map (\<lambda>i. retry_delay self * 2 ^ i) [0..<nat (retry_attempts self) - 1]"
    if a: "0 < retry_attempts self
        \<and> (\<forall>i < nat (retry_attempts self). \<exists>e. backend i = Fails (OracleError e))"
    using D [OF a] S a by blast
  from A B L F C' D' show ?thesis by blast
qed

theorem connect_retry_budget_witness:
  "ending (connect (flaky_backend 2) init_defaults) = Connected
   \<and> attempts_made (connect (flaky_backend 2) init_defaults) = 3
   \<and> sleeps (connect (flaky_backend 2) init_defaults) = [1, 2]
   \<and> (\<exists>e. ending (connect dead_backend init_defaults) = Raised (OracleError e))
   \<and> attempts_made (connect dead_backend init_defaults) = 3
   \<and> sleeps (connect dead_backend init_defaults) = [1, 2]
   \<and> length (sleeps (connect (flaky_backend 1) init_defaults)) + 1 = 2
   \<and> (\<exists>e. flaky_backend 1 0 = Fails (OracleError e))"
proof -
  have r: "retry_attempts init_defaults = 3" by (simp add: init_defaults_def)
  have f: "0 < retry_attempts init_defaults
        \<and> (\<forall>i < nat (retry_attempts init_defaults) - 1.
              \<exists>e. flaky_backend 2 i = Fails (OracleError e))
        \<and> flaky_backend 2 (nat (retry_attempts init_defaults) - 1) = Succeeds"
    by (simp add: r flaky_backend_def)
  have d: "0 < retry_attempts init_defaults
        \<and> (\<forall>i < nat (retry_attempts init_defaults). \<exists>e. dead_backend i = Fails (OracleError e))"
    by (simp add: r dead_backend_def)
  have s: "map (\<lambda>i. retry_delay init_defaults * 2 ^ i) [0..<nat (retry_attempts init_defaults) - 1]
             = [1, 2]"
    by (simp add: init_defaults_def upt_rec)
  have n: "attempts_made (connect (flaky_backend 1) init_defaults) = 2"
    by code_simp
  from connect_retry_budget [of "flaky_backend 2" init_defaults] f
  have c1: "ending (connect (flaky_backend 2) init_defaults) = Connected
            \<and> attempts_made (connect (flaky_backend 2) init_defaults) = 3
            \<and> sleeps (connect (flaky_backend 2) init_defaults)
                = map (\<lambda>i. retry_delay init_defaults * 2 ^ i)
                    [0..<nat (retry_attempts init_defaults) - 1]"
    by (simp add: r)
  from connect_retry_budget [of dead_backend init_defaults] d
  have c2: "(\<exists>e. ending (connect dead_backend init_defaults) = Raised (OracleError e))
            \<and> attempts_made (connect dead_backend init_defaults) = 3
            \<and> sleeps (connect dead_backend init_defaults)
                = map (\<lambda>i. retry_delay init_defaults * 2 ^ i)
                    [0..<nat (retry_attempts init_defaults) - 1]"
    by (simp add: r)
  note t = connect_retry_budget [of "flaky_backend 1" init_defaults]
  from t have t3: "0 < attempts_made (connect (flaky_backend 1) init_defaults)
      \<longrightarrow> length (sleeps (connect (flaky_backend 1) init_defaults)) + 1
            = attempts_made (connect (flaky_backend 1) init_defaults)"
    by (elim conjE)
  from t have t4: "\<forall>i. i + 1 < attempts_made (connect (flaky_backend 1) init_defaults)
      \<longrightarrow> (\<exists>e. flaky_backend 1 i = Fails (OracleError e))"
    by (elim conjE)
  from t4 have "0 + 1 < attempts_made (connect (flaky_backend 1) init_defaults)
      \<longrightarrow> (\<exists>e. flaky_backend 1 0 = Fails (OracleError e))"
    by (rule spec)
  with t3 n
  have c3: "length (sleeps (connect (flaky_backend 1) init_defaults)) + 1 = 2
            \<and> (\<exists>e. flaky_backend 1 0 = Fails (OracleError e))"
    by simp
  from c1 c2 c3 s show ?thesis by simp
qed

section \<open>Properties of the adaptive batch size\<close>

lemma py_int_shrink: "0 \<le> c \<Longrightarrow> py_int (of_int c * 0.8) = c * 4 div 5"
proof -
  assume c: "0 \<le> c"
  have "(of_int c :: real) * 0.8 = of_int (c * 4) / of_int 5" by simp
  then have "\<lfloor>(of_int c :: real) * 0.8\<rfloor> = c * 4 div 5"
    by (simp only: floor_divide_of_int_eq)
  moreover from c have "(0::real) \<le> of_int c * 0.8" by simp
  ultimately show ?thesis by (simp add: py_int_def)
qed

lemma py_int_grow: "0 \<le> c \<Longrightarrow> py_int (of_int c * 1.2) = c * 6 div 5"
proof -
  assume c: "0 \<le> c"
  have "(of_int c :: real) * 1.2 = of_int (c * 6) / of_int 5" by simp
  then have "\<lfloor>(of_int c :: real) * 1.2\<rfloor> = c * 6 div 5"
    by (simp only: floor_divide_of_int_eq)
  moreover from c have "(0::real) \<le> of_int c * 1.2" by simp
  ultimately show ?thesis by (simp add: py_int_def)
qed

lemma adjust_batch_size_cases:
  assumes "adaptive_batch self"
  shows "adjust_batch_size self c t =
           (if t > 3/4 then max (min_batch_size self) (py_int (of_int c * 0.8))
            else if t < 1/4 then min (max_batch_size self) (py_int (of_int c * 1.2))
            else c)"
  using assms by (simp add: adjust_batch_size_def Let_def)

lemma adjust_batch_size_in_range:
  assumes "0 \<le> min_batch_size self" and "min_batch_size self \<le> c" and "c \<le> max_batch_size self"
  shows "min_batch_size self \<le> adjust_batch_size self c t
         \<and> adjust_batch_size self c t \<le> max_batch_size self"
proof (cases "adaptive_batch self")
  case False
  with assms show ?thesis by (simp add: adjust_batch_size_def)
next
  case True
  from assms have c0: "0 \<le> c" by simp
  have s: "c * 4 div 5 \<le> c" using c0 by simp
  have g: "c \<le> c * 6 div 5" using c0 by simp
  have S: "py_int (of_int c * 0.8) = c * 4 div 5" using c0 by (rule py_int_shrink)
  have G: "py_int (of_int c * 1.2) = c * 6 div 5" using c0 by (rule py_int_grow)
  show ?thesis
    unfolding adjust_batch_size_cases [OF True] S G using assms s g by auto
qed

lemma batch_loop_in_range:
  assumes "0 \<le> min_batch_size self"
  shows "min_batch_size self \<le> c \<Longrightarrow> c \<le> max_batch_size self \<Longrightarrow>
         \<forall>s \<in> set (batch_loop self n c ts). min_batch_size self \<le> s \<and> s \<le> max_batch_size self"
proof (induction ts arbitrary: n c)
  case Nil
  then show ?case by simp
next
  case (Cons t ts)
  let ?c' = "if adaptive_batch self \<and> (n + 1) mod 5 = 0 then adjust_batch_size self c t else c"
  from adjust_batch_size_in_range [OF assms Cons.prems] Cons.prems
  have "min_batch_size self \<le> ?c'" and "?c' \<le> max_batch_size self" by simp_all
  from Cons.IH [OF this] Cons.prems show ?case by (simp add: Let_def)
qed

lemma batch_loop_length: "length (batch_loop self n c ts) = Suc (length ts)"
  by (induction ts arbitrary: n c) (simp_all add: Let_def)

lemma batch_loop_step:
  "i < length ts \<Longrightarrow>
   batch_loop self n c ts ! Suc i =
     (if adaptive_batch self \<and> (n + int i + 1) mod 5 = 0
      then adjust_batch_size self (batch_loop self n c ts ! i) (ts ! i)
      else batch_loop self n c ts ! i)"
proof (induction ts arbitrary: n c i)
  case Nil
  then show ?case by simp
next
  case (Cons t ts)
  show ?case
  proof (cases i)
    case 0
    then show ?thesis by (cases ts) (simp_all add: Let_def)
  next
    case (Suc j)
    with Cons.prems have "j < length ts" by simp
    from Cons.IH [OF this, of "n + 1"] Suc show ?thesis
      by (simp add: Let_def add.assoc)
  qed
qed

text \<open>
  C5, as stated, fails: the comparison is with a band around the target, not with the
  target. A batch of 0.6 s is slower than the 0.5 s target and a batch of 0.4 s is
  faster, and both leave a size of 10000 as it is, where a change by 20% would give 8000
  and 12000.
\<close>

theorem adjust_batch_size_counterexample:
  "adaptive_batch init_defaults
   \<and> (0.6 :: real) > 0.5 \<and> adjust_batch_size init_defaults 10000 0.6 = 10000
   \<and> (0.4 :: real) < 0.5 \<and> adjust_batch_size init_defaults 10000 0.4 = 10000"
  by (simp add: init_defaults_def adjust_batch_size_def py_int_def Let_def)

text \<open>
  C5, amended: with adaptive batching enabled, a batch time above 1.5 times the target
  (0.75 s) replaces the size by 80% of it, truncated and floored at \<^verbatim>\<open>min_batch_size\<close>; a
  batch time below half the target (0.25 s) replaces it by 120% of it, truncated and
  capped at \<^verbatim>\<open>max_batch_size\<close>; a batch time from 0.25 s to 0.75 s leaves it unchanged.
  In the batch loop the size changes only after every fifth batch, and then to what
  \<^verbatim>\<open>_adjust_batch_size\<close> returns for the time of that batch.
\<close>

theorem adjust_batch_size_rule:
  assumes "adaptive_batch self"
  shows "(t > 3/4 \<longrightarrow> adjust_batch_size self c t
                        = max (min_batch_size self) (py_int (of_int c * 0.8)))
       \<and> (t < 1/4 \<longrightarrow> adjust_batch_size self c t
                        = min (max_batch_size self) (py_int (of_int c * 1.2)))
       \<and> (1/4 \<le> t \<and> t \<le> 3/4 \<longrightarrow> adjust_batch_size self c t = c)
       \<and> (0 \<le> c \<longrightarrow> py_int (of_int c * 0.8) = c * 4 div 5 \<and> py_int (of_int c * 1.2) = c * 6 div 5)
       \<and> (\<forall>i < length ts.
             scan_table_batch_sizes self ts ! Suc i =
               (if (int i + 1) mod 5 = 0
                then adjust_batch_size self (scan_table_batch_sizes self ts ! i) (ts ! i)
                else scan_table_batch_sizes self ts ! i))"
proof -
  note cases = adjust_batch_size_cases [OF assms, of c t]
  have A: "t > 3/4 \<longrightarrow> adjust_batch_size self c t
                        = max (min_batch_size self) (py_int (of_int c * 0.8))"
    unfolding cases by simp
  have B: "t < 1/4 \<longrightarrow> adjust_batch_size self c t
                        = min (max_batch_size self) (py_int (of_int c * 1.2))"
    unfolding cases by simp
  have C: "1/4 \<le> t \<and> t \<le> 3/4 \<longrightarrow> adjust_batch_size self c t = c"
    unfolding cases by simp
  have D: "0 \<le> c \<longrightarrow> py_int (of_int c * 0.8) = c * 4 div 5 \<and> py_int (of_int c * 1.2) = c * 6 div 5"
    using py_int_shrink [of c] py_int_grow [of c] by blast
  have E: "\<forall>i < length ts.
             scan_table_batch_sizes self ts ! Suc i =
               (if (int i + 1) mod 5 = 0
                then adjust_batch_size self (scan_table_batch_sizes self ts ! i) (ts ! i)
                else scan_table_batch_sizes self ts ! i)"
    using assms batch_loop_step [of _ ts self 0 "fetch_size self"]
    by (simp add: scan_table_batch_sizes_def)
  from A B C D E show ?thesis by blast
qed

theorem adjust_batch_size_rule_witness:
  "adaptive_batch init_defaults
   \<and> adjust_batch_size init_defaults 10000 0.9 = 8000
   \<and> adjust_batch_size init_defaults 10000 0.1 = 12000
   \<and> adjust_batch_size init_defaults 10000 0.5 = 10000
   \<and> scan_table_batch_sizes init_defaults [0.9, 0.9, 0.9, 0.9, 0.9] ! 5
       = adjust_batch_size init_defaults
           (scan_table_batch_sizes init_defaults [0.9, 0.9, 0.9, 0.9, 0.9] ! 4) 0.9"
proof -
  have a: "adaptive_batch init_defaults" by (simp add: init_defaults_def)
  have m: "min_batch_size init_defaults = 1000" "max_batch_size init_defaults = 50000"
    by (simp_all add: init_defaults_def)
  note r = adjust_batch_size_rule [OF a]
  from r [of "0.9" 10000] have w1: "adjust_batch_size init_defaults 10000 0.9 = 8000"
    by (simp add: m)
  from r [of "0.1" 10000] have w2: "adjust_batch_size init_defaults 10000 0.1 = 12000"
    by (simp add: m)
  from r [of "0.5" 10000] have w3: "adjust_batch_size init_defaults 10000 0.5 = 10000"
    by simp
  from r [of 0 0 "[0.9, 0.9, 0.9, 0.9, 0.9]"]
  have "\<forall>i < 5.
          scan_table_batch_sizes init_defaults [0.9, 0.9, 0.9, 0.9, 0.9] ! Suc i =
            (if (int i + 1) mod 5 = 0
             then adjust_batch_size init_defaults
                    (scan_table_batch_sizes init_defaults [0.9, 0.9, 0.9, 0.9, 0.9] ! i)
                    ([0.9, 0.9, 0.9, 0.9, 0.9] ! i)
             else scan_table_batch_sizes init_defaults [0.9, 0.9, 0.9, 0.9, 0.9] ! i)"
    by simp
  then have "scan_table_batch_sizes init_defaults [0.9, 0.9, 0.9, 0.9, 0.9] ! Suc 4 =
            (if (int 4 + 1) mod 5 = 0
             then adjust_batch_size init_defaults
                    (scan_table_batch_sizes init_defaults [0.9, 0.9, 0.9, 0.9, 0.9] ! 4)
                    ([0.9, 0.9, 0.9, 0.9, 0.9] ! 4)
             else scan_table_batch_sizes init_defaults [0.9, 0.9, 0.9, 0.9, 0.9] ! 4)"
    by (rule allE [of _ 4]) simp
  then have w4: "scan_table_batch_sizes init_defaults [0.9, 0.9, 0.9, 0.9, 0.9] ! 5
       = adjust_batch_size init_defaults
           (scan_table_batch_sizes init_defaults [0.9, 0.9, 0.9, 0.9, 0.9] ! 4) 0.9"
    by simp
  from a w1 w2 w3 w4 show ?thesis by simp
qed

text \<open>
  C6, as stated, fails: the size starts at \<^verbatim>\<open>fetch_size\<close>, which nothing clamps. With
  \<^verbatim>\<open>fetch_size = 500\<close> and the default bounds 1000 and 50000, five fast batches are
  fetched with size 500 and the next one with size 600, all below \<^verbatim>\<open>min_batch_size\<close>.
\<close>

theorem batch_size_counterexample:
  "scan_table_batch_sizes (init_defaults\<lparr>fetch_size := 500\<rparr>) [0.1, 0.1, 0.1, 0.1, 0.1]
     = [500, 500, 500, 500, 500, 600]
   \<and> 600 < min_batch_size (init_defaults\<lparr>fetch_size := 500\<rparr>)"
  by (simp add: scan_table_batch_sizes_def init_defaults_def adjust_batch_size_def py_int_def
        Let_def)

text \<open>
  C6, amended: when \<^verbatim>\<open>0 \<le> min_batch_size \<le> fetch_size \<le> max_batch_size\<close>, as with the
  defaults 1000, 10000 and 50000, every size the batch loop fetches with lies between
  \<^verbatim>\<open>min_batch_size\<close> and \<^verbatim>\<open>max_batch_size\<close>, whatever the batch times are.
\<close>

theorem batch_size_bounded:
  assumes "0 \<le> min_batch_size self" and "min_batch_size self \<le> fetch_size self"
    and "fetch_size self \<le> max_batch_size self"
  shows "\<forall>s \<in> set (scan_table_batch_sizes self ts).
           min_batch_size self \<le> s \<and> s \<le> max_batch_size self"
  unfolding scan_table_batch_sizes_def using assms by (rule batch_loop_in_range)

theorem batch_size_bounded_witness:
  "0 \<le> min_batch_size init_defaults
   \<and> min_batch_size init_defaults \<le> fetch_size init_defaults
   \<and> fetch_size init_defaults \<le> max_batch_size init_defaults
   \<and> 1000 \<le> scan_table_batch_sizes init_defaults [9, 9, 9, 9, 9, 0, 0, 0, 0, 0] ! 10
   \<and> scan_table_batch_sizes init_defaults [9, 9, 9, 9, 9, 0, 0, 0, 0, 0] ! 10 \<le> 50000"
proof -
  let ?ts = "[9, 9, 9, 9, 9, 0, 0, 0, 0, 0] :: real list"
  have h: "0 \<le> min_batch_size init_defaults"
    "min_batch_size init_defaults \<le> fetch_size init_defaults"
    "fetch_size init_defaults \<le> max_batch_size init_defaults"
    by (simp_all add: init_defaults_def)
  have "length (scan_table_batch_sizes init_defaults ?ts) = 11"
    by (simp add: scan_table_batch_sizes_def batch_loop_length)
  then have "scan_table_batch_sizes init_defaults ?ts ! 10
               \<in> set (scan_table_batch_sizes init_defaults ?ts)"
    by (intro nth_mem) simp
  with batch_size_bounded [OF h, of ?ts]
  have "min_batch_size init_defaults \<le> scan_table_batch_sizes init_defaults ?ts ! 10
        \<and> scan_table_batch_sizes init_defaults ?ts ! 10 \<le> max_batch_size init_defaults"
    by blast
  with h show ?thesis by (simp add: init_defaults_def)
qed

section \<open>Properties of the pattern catalog and the scan options\<close>

lemma select_patterns_list:
  "select_patterns keep (PList xs) ps = Inr (filter (\<lambda>p. (name p \<in> set xs) = keep) ps)"
  by (induction ps) simp_all

lemma names_of_truthy: "names_of v = Some xs \<Longrightarrow> truthy v \<longleftrightarrow> xs \<noteq> []"
  by (cases v) auto

lemma names_of_cases: "names_of v = Some xs \<Longrightarrow> xs \<noteq> [] \<Longrightarrow> v = PList xs"
  by (cases v) auto

lemma get_patterns_typed:
  assumes "options ''only_patterns'' = Some only"
    and "options ''except_patterns'' = Some exc"
    and "options ''pattern'' = Some pat"
    and "names_of only = Some only_names"
    and "names_of exc = Some except_names"
  shows "get_patterns options =
           Inr ((if only_names \<noteq> [] then filter (\<lambda>p. name p \<in> set only_names) get_default_patterns
                 else filter (\<lambda>p. name p \<notin> set except_names) get_default_patterns)
                @ (if truthy pat then [custom_pattern pat] else []))"
proof (cases "only_names = []")
  case False
  with assms(4) have o: "only = PList only_names" by (simp add: names_of_cases)
  with False assms(1,3) show ?thesis
    by (simp add: get_patterns_def getattr_def select_patterns_list custom_pattern_def)
next
  case True
  with assms(4) have nt: "\<not> truthy only" by (simp add: names_of_truthy)
  show ?thesis
  proof (cases "except_names = []")
    case e: True
    with assms(5) have "\<not> truthy exc" by (simp add: names_of_truthy)
    with nt True e assms(1,2,3) show ?thesis
      by (simp add: get_patterns_def getattr_def custom_pattern_def)
  next
    case e: False
    with assms(5) have "exc = PList except_names" by (simp add: names_of_cases)
    with nt True e assms(1,2,3) show ?thesis
      by (simp add: get_patterns_def getattr_def select_patterns_list custom_pattern_def)
  qed
qed

lemma unknown_name_filter:
  "n \<notin> set (map name ps) \<Longrightarrow>
   filter (\<lambda>p. (name p \<in> set (n # xs)) = keep) ps = filter (\<lambda>p. (name p \<in> set xs) = keep) ps"
  by (induction ps) auto

lemma unknown_only_name:
  assumes "n \<notin> set (map name get_default_patterns)" and "xs \<noteq> []"
  shows "get_patterns (options(''only_patterns'' \<mapsto> PList (n # xs)))
         = get_patterns (options(''only_patterns'' \<mapsto> PList xs))"
  using assms unknown_name_filter [of n get_default_patterns xs True]
  by (auto simp: get_patterns_def getattr_def select_patterns_list split: option.splits sum.splits)

lemma filter_none_excluded:
  "n \<notin> set (map name ps) \<Longrightarrow> filter (\<lambda>p. (name p \<in> set [n]) = False) ps = ps"
  by (induction ps) auto

lemma unknown_except_name:
  assumes "n \<notin> set (map name get_default_patterns)"
  shows "get_patterns (options(''except_patterns'' \<mapsto> PList (n # xs)))
         = get_patterns (options(''except_patterns'' \<mapsto> PList xs))"
proof (cases "xs = []")
  case True
  with filter_none_excluded [OF assms] show ?thesis
    by (auto simp: get_patterns_def getattr_def select_patterns_list split: option.splits sum.splits)
next
  case False
  with unknown_name_filter [OF assms, of xs False] show ?thesis
    by (auto simp: get_patterns_def getattr_def select_patterns_list split: option.splits sum.splits)
qed


lemma fold_setattr_other:
  "k \<notin> fst ` set kwargs \<Longrightarrow> fold (\<lambda>(k, v) self. self(k \<mapsto> v)) kwargs base k = base k"
  by (induction kwargs arbitrary: base) auto

lemma get_patterns_reads:
  assumes "options ''only_patterns'' = options' ''only_patterns''"
    and "options ''except_patterns'' = options' ''except_patterns''"
    and "options ''pattern'' = options' ''pattern''"
  shows "get_patterns options = get_patterns options'"
proof -
  have a: "getattr options ''only_patterns'' = getattr options' ''only_patterns''"
    and b: "getattr options ''except_patterns'' = getattr options' ''except_patterns''"
    and c: "getattr options ''pattern'' = getattr options' ''pattern''"
    using assms by (simp_all add: getattr_def)
  show ?thesis unfolding get_patterns_def by (simp only: a b c)
qed

lemma unknown_only_filter:
  assumes "xs \<noteq> []" and "set xs \<inter> set (map name get_default_patterns) = {}"
    and "options ''pattern'' = Some pat"
  shows "get_patterns (options(''only_patterns'' \<mapsto> PList xs))
         = Inr (if truthy pat then [custom_pattern pat] else [])"
proof -
  from assms(2) have "\<And>p. p \<in> set get_default_patterns \<Longrightarrow> name p \<notin> set xs" by auto
  then have "filter (\<lambda>p. (name p \<in> set xs) = True) get_default_patterns = []"
    by (simp add: filter_empty_conv)
  with assms(1,3) show ?thesis
    by (simp add: get_patterns_def getattr_def select_patterns_list custom_pattern_def)
qed

text \<open>
  C7, as stated, fails: a filter name that matches no default pattern is not ignored when
  the inclusion filter holds nothing else. The name \<^verbatim>\<open>credit-card\<close> is no default pattern
  (the default is \<^verbatim>\<open>credit_card\<close>); with \<^verbatim>\<open>only_patterns = ['credit-card']\<close> the result is
  empty, where the empty filter returns the thirteen defaults.
\<close>

theorem get_patterns_counterexample:
  "''credit-card'' \<notin> set (map name get_default_patterns)
   \<and> get_patterns (ScanOptions_init (PBool False) (PBool False) (PInt 1000) (PInt 1) PNone PNone
        (PInt 1) PNone (PBool False) (PStr ''text'') (PList [''credit-card'']) []) = Inr []
   \<and> map_sum id (map name)
        (get_patterns (ScanOptions_init (PBool False) (PBool False) (PInt 1000) (PInt 1) PNone
           PNone (PInt 1) PNone (PBool False) (PStr ''text'') (PList []) []))
       = Inr 
      [''email'', ''phone'', ''ssn'', ''credit_card'', ''credit_card_masked'', ''ipv4'',
        ''ipv6'', ''url'', ''mac'', ''date'', ''time'', ''person_name'', ''company_name'']"
  by code_simp

text \<open>
  C7, amended: for every options object whose \<^verbatim>\<open>only_patterns\<close> and \<^verbatim>\<open>except_patterns\<close> are
  \<^verbatim>\<open>None\<close> or a list of names, \<^verbatim>\<open>get_patterns\<close> raises nothing and returns the default
  patterns, in their order, kept by the inclusion filter when it is not empty and
  otherwise minus the names of the exclusion filter, followed by the ad-hoc pattern when
  \<^verbatim>\<open>options.pattern\<close> is given. A name that no default pattern has causes no error; it
  changes nothing when it is added to an exclusion filter or to a non-empty inclusion
  filter, and an inclusion filter made only of such names keeps no default pattern.
\<close>

theorem get_patterns_spec:
  assumes "options ''only_patterns'' = Some only"
    and "options ''except_patterns'' = Some exc"
    and "options ''pattern'' = Some pat"
    and "names_of only = Some only_names"
    and "names_of exc = Some except_names"
  shows "get_patterns options =
           Inr ((if only_names \<noteq> []
                 then filter (\<lambda>p. name p \<in> set only_names) get_default_patterns
                 else filter (\<lambda>p. name p \<notin> set except_names) get_default_patterns)
                @ (if truthy pat then [custom_pattern pat] else []))
       \<and> (\<forall>n xs. n \<notin> set (map name get_default_patterns) \<longrightarrow>
             get_patterns (options(''except_patterns'' \<mapsto> PList (n # xs)))
               = get_patterns (options(''except_patterns'' \<mapsto> PList xs)))
       \<and> (\<forall>n xs. n \<notin> set (map name get_default_patterns) \<and> xs \<noteq> [] \<longrightarrow>
             get_patterns (options(''only_patterns'' \<mapsto> PList (n # xs)))
               = get_patterns (options(''only_patterns'' \<mapsto> PList xs)))
       \<and> (\<forall>xs. xs \<noteq> [] \<and> set xs \<inter> set (map name get_default_patterns) = {} \<longrightarrow>
             get_patterns (options(''only_patterns'' \<mapsto> PList xs))
               = Inr (if truthy pat then [custom_pattern pat] else []))"
proof -
  note A = get_patterns_typed [OF assms]
  have B: "\<forall>n xs. n \<notin> set (map name get_default_patterns) \<longrightarrow>
             get_patterns (options(''except_patterns'' \<mapsto> PList (n # xs)))
               = get_patterns (options(''except_patterns'' \<mapsto> PList xs))"
    using unknown_except_name [of _ options] by blast
  have C: "\<forall>n xs. n \<notin> set (map name get_default_patterns) \<and> xs \<noteq> [] \<longrightarrow>
             get_patterns (options(''only_patterns'' \<mapsto> PList (n # xs)))
               = get_patterns (options(''only_patterns'' \<mapsto> PList xs))"
    using unknown_only_name [of _ _ options] by blast
  have D: "\<forall>xs. xs \<noteq> [] \<and> set xs \<inter> set (map name get_default_patterns) = {} \<longrightarrow>
             get_patterns (options(''only_patterns'' \<mapsto> PList xs))
               = Inr (if truthy pat then [custom_pattern pat] else [])"
    using unknown_only_filter [of _ options pat] assms(3) by blast
  from A B C D show ?thesis by (intro conjI)
qed

theorem get_patterns_spec_witness:
  "map_sum id (map name)
     (get_patterns (ScanOptions_init (PBool False) (PBool False) (PInt 1000) (PInt 1) PNone PNone
        (PInt 1) (PStr ''abc'') (PBool False) (PStr ''text'') (PList [''bogus'', ''email'']) []))
     = Inr [''email'', ''custom'']
   \<and> get_patterns ((ScanOptions_init (PBool False) (PBool False) (PInt 1000) (PInt 1) PNone PNone
        (PInt 1) (PStr ''abc'') (PBool False) (PStr ''text'') (PList [''bogus'', ''email'']) [])
        (''except_patterns'' \<mapsto> PList [''bogus'']))
     = get_patterns ((ScanOptions_init (PBool False) (PBool False) (PInt 1000) (PInt 1) PNone PNone
        (PInt 1) (PStr ''abc'') (PBool False) (PStr ''text'') (PList [''bogus'', ''email'']) [])
        (''except_patterns'' \<mapsto> PList []))
   \<and> get_patterns ((ScanOptions_init (PBool False) (PBool False) (PInt 1000) (PInt 1) PNone PNone
        (PInt 1) (PStr ''abc'') (PBool False) (PStr ''text'') (PList [''bogus'', ''email'']) [])
        (''only_patterns'' \<mapsto> PList [''bogus'', ''email'']))
     = get_patterns ((ScanOptions_init (PBool False) (PBool False) (PInt 1000) (PInt 1) PNone PNone
        (PInt 1) (PStr ''abc'') (PBool False) (PStr ''text'') (PList [''bogus'', ''email'']) [])
        (''only_patterns'' \<mapsto> PList [''email'']))
   \<and> get_patterns ((ScanOptions_init (PBool False) (PBool False) (PInt 1000) (PInt 1) PNone PNone
        (PInt 1) (PStr ''abc'') (PBool False) (PStr ''text'') (PList [''bogus'', ''email'']) [])
        (''only_patterns'' \<mapsto> PList [''credit-card'']))
     = Inr [custom_pattern (PStr ''abc'')]"
proof -
  let ?o = "ScanOptions_init (PBool False) (PBool False) (PInt 1000) (PInt 1) PNone PNone
        (PInt 1) (PStr ''abc'') (PBool False) (PStr ''text'') (PList [''bogus'', ''email'']) []"
  have a: "?o ''only_patterns'' = Some (PList [''bogus'', ''email''])"
    and b: "?o ''except_patterns'' = Some PNone"
    and c: "?o ''pattern'' = Some (PStr ''abc'')"
    by (simp_all add: ScanOptions_init_def)
  have d: "names_of (PList [''bogus'', ''email'']) = Some [''bogus'', ''email'']"
    and e: "names_of PNone = Some []"
    by simp_all
  have u: "''bogus'' \<notin> set (map name get_default_patterns)"
    by (simp add: get_default_patterns_def)
  have v: "[''credit-card''] \<noteq> []
           \<and> set [''credit-card''] \<inter> set (map name get_default_patterns) = {}"
    by (simp add: get_default_patterns_def)
  have f: "map name (filter (\<lambda>p. name p \<in> set [''bogus'', ''email'']) get_default_patterns)
             = [''email'']"
    by (simp add: get_default_patterns_def)
  note r = get_patterns_spec [OF a b c d e]
  from r have r1: "get_patterns ?o =
      Inr ((if [''bogus'', ''email''] \<noteq> []
            then filter (\<lambda>p. name p \<in> set [''bogus'', ''email'']) get_default_patterns
            else filter (\<lambda>p. name p \<notin> set []) get_default_patterns)
           @ (if truthy (PStr ''abc'') then [custom_pattern (PStr ''abc'')] else []))"
    by (elim conjE)
  from r have r2: "\<forall>n xs. n \<notin> set (map name get_default_patterns) \<longrightarrow>
             get_patterns (?o(''except_patterns'' \<mapsto> PList (n # xs)))
               = get_patterns (?o(''except_patterns'' \<mapsto> PList xs))"
    by (elim conjE)
  from r have r3: "\<forall>n xs. n \<notin> set (map name get_default_patterns) \<and> xs \<noteq> [] \<longrightarrow>
             get_patterns (?o(''only_patterns'' \<mapsto> PList (n # xs)))
               = get_patterns (?o(''only_patterns'' \<mapsto> PList xs))"
    by (elim conjE)
  from r have r4: "\<forall>xs. xs \<noteq> [] \<and> set xs \<inter> set (map name get_default_patterns) = {} \<longrightarrow>
             get_patterns (?o(''only_patterns'' \<mapsto> PList xs))
               = Inr (if truthy (PStr ''abc'') then [custom_pattern (PStr ''abc'')] else [])"
    by (elim conjE)
  from r1 have "get_patterns ?o =
      Inr (filter (\<lambda>p. name p \<in> set [''bogus'', ''email'']) get_default_patterns
           @ [custom_pattern (PStr ''abc'')])"
    by simp
  with f have w1: "map_sum id (map name) (get_patterns ?o) = Inr [''email'', ''custom'']"
    by (simp add: custom_pattern_def)
  from r2 u have w2: "get_patterns (?o(''except_patterns'' \<mapsto> PList [''bogus'']))
                     = get_patterns (?o(''except_patterns'' \<mapsto> PList []))"
    by blast
  from r3 u have w3: "get_patterns (?o(''only_patterns'' \<mapsto> PList [''bogus'', ''email'']))
                     = get_patterns (?o(''only_patterns'' \<mapsto> PList [''email'']))"
    by blast
  from r4 v have "get_patterns (?o(''only_patterns'' \<mapsto> PList [''credit-card'']))
                     = Inr (if truthy (PStr ''abc'') then [custom_pattern (PStr ''abc'')] else [])"
    by blast
  then have w4: "get_patterns (?o(''only_patterns'' \<mapsto> PList [''credit-card'']))
                     = Inr [custom_pattern (PStr ''abc'')]"
    by simp
  from w1 w2 w3 w4 show ?thesis by (intro conjI)
qed

lemma fold_setattr_distinct:
  "distinct (map fst kwargs) \<Longrightarrow> (k, v) \<in> set kwargs \<Longrightarrow>
   fold (\<lambda>(k, v) self. self(k \<mapsto> v)) kwargs base k = Some v"
proof (induction kwargs arbitrary: base)
  case Nil
  then show ?case by simp
next
  case (Cons kv kwargs)
  show ?case
  proof (cases "kv = (k, v)")
    case True
    with Cons.prems(1) have "k \<notin> fst ` set kwargs" by auto
    then have "fold (\<lambda>(k, v) self. self(k \<mapsto> v)) kwargs (base(k \<mapsto> v)) k
                 = (base(k \<mapsto> v)) k"
      by (rule fold_setattr_other)
    then have "fold (\<lambda>(k, v) self. self(k \<mapsto> v)) kwargs (base(k \<mapsto> v)) k = Some v"
      by simp
    moreover have "fold (\<lambda>(k, v) self. self(k \<mapsto> v)) ((k, v) # kwargs) base
                 = fold (\<lambda>(k, v) self. self(k \<mapsto> v)) kwargs (base(k \<mapsto> v))"
      by simp
    ultimately show ?thesis using True by (simp only:)
  next
    case False
    with Cons.prems have "(k, v) \<in> set kwargs" and "distinct (map fst kwargs)" by simp_all
    with Cons.IH show ?thesis by (cases kv) simp
  qed
qed

text \<open>
  C9: \<^verbatim>\<open>ScanOptions.__init__\<close> sets \<^verbatim>\<open>except_patterns\<close> to \<^verbatim>\<open>None\<close> whatever the declared
  parameters are, \<^verbatim>\<open>except_\<close> among them, so the attribute is \<^verbatim>\<open>None\<close> unless the keyword
  arguments, whose names are distinct, hold \<^verbatim>\<open>except_patterns\<close>, which the trailing loop
  then assigns. Without it
  \<^verbatim>\<open>get_patterns\<close> removes no default pattern by exclusion: when the inclusion filter is
  empty it returns every default pattern, and its result does not depend on \<^verbatim>\<open>except_\<close>.
\<close>

theorem except_patterns_reset:
  "(''except_patterns'' \<notin> fst ` set kwargs \<longrightarrow>
      ScanOptions_init sd sa ss pr on ex mc pa de fo op kwargs ''except_patterns'' = Some PNone)
   \<and> (distinct (map fst kwargs) \<and> (''except_patterns'', v) \<in> set kwargs \<longrightarrow>
      ScanOptions_init sd sa ss pr on ex mc pa de fo op kwargs ''except_patterns'' = Some v)
   \<and> (\<not> truthy op \<longrightarrow>
        get_patterns (ScanOptions_init sd sa ss pr on ex mc pa de fo op [])
          = Inr (get_default_patterns @ (if truthy pa then [custom_pattern pa] else [])))
   \<and> get_patterns (ScanOptions_init sd sa ss pr on ex mc pa de fo op [])
        = get_patterns (ScanOptions_init sd sa ss pr on PNone mc pa de fo op [])"
proof -
  have A: "ScanOptions_init sd sa ss pr on ex mc pa de fo op kwargs ''except_patterns'' = Some PNone"
    if "''except_patterns'' \<notin> fst ` set kwargs"
    using that by (simp add: ScanOptions_init_def fold_setattr_other)
  have B: "ScanOptions_init sd sa ss pr on ex mc pa de fo op kwargs ''except_patterns'' = Some v"
    if "distinct (map fst kwargs) \<and> (''except_patterns'', v) \<in> set kwargs"
    using that by (simp add: ScanOptions_init_def fold_setattr_distinct)
  have C: "get_patterns (ScanOptions_init sd sa ss pr on ex mc pa de fo op [])
          = Inr (get_default_patterns @ (if truthy pa then [custom_pattern pa] else []))"
    if "\<not> truthy op"
    using that by (simp add: ScanOptions_init_def get_patterns_def getattr_def custom_pattern_def)
  have D: "get_patterns (ScanOptions_init sd sa ss pr on ex mc pa de fo op [])
        = get_patterns (ScanOptions_init sd sa ss pr on PNone mc pa de fo op [])"
    by (rule get_patterns_reads) (simp_all add: ScanOptions_init_def)
  from A B C D show ?thesis by blast
qed

theorem except_patterns_reset_witness:
  "ScanOptions_init (PBool False) (PBool False) (PInt 1000) (PInt 1) PNone (PList [''email''])
     (PInt 1) PNone (PBool False) (PStr ''text'') PNone [] ''except_patterns'' = Some PNone
   \<and> map_sum id (map name)
       (get_patterns (ScanOptions_init (PBool False) (PBool False) (PInt 1000) (PInt 1) PNone
          (PList [''email'']) (PInt 1) PNone (PBool False) (PStr ''text'') PNone []))
       = Inr 
      [''email'', ''phone'', ''ssn'', ''credit_card'', ''credit_card_masked'', ''ipv4'',
        ''ipv6'', ''url'', ''mac'', ''date'', ''time'', ''person_name'', ''company_name'']
   \<and> map_sum id (map name)
       (get_patterns (ScanOptions_init (PBool False) (PBool False) (PInt 1000) (PInt 1) PNone
          PNone (PInt 1) PNone (PBool False) (PStr ''text'') PNone
          [(''except_patterns'', PList [''email''])]))
       = Inr 
      [''phone'', ''ssn'', ''credit_card'', ''credit_card_masked'', ''ipv4'',
        ''ipv6'', ''url'', ''mac'', ''date'', ''time'', ''person_name'', ''company_name'']
   \<and> ScanOptions_init (PBool False) (PBool False) (PInt 1000) (PInt 1) PNone PNone
       (PInt 1) PNone (PBool False) (PStr ''text'') PNone
       [(''except_patterns'', PList [''email''])] ''except_patterns'' = Some (PList [''email''])"
proof -
  note r = except_patterns_reset [of "[]" "PBool False" "PBool False" "PInt 1000" "PInt 1" PNone
      "PList [''email'']" "PInt 1" PNone "PBool False" "PStr ''text''" PNone]
  have k: "''except_patterns'' \<notin> fst ` set ([] :: (string \<times> pyval) list)" by simp
  have t: "\<not> truthy PNone" by simp
  from r k have w1: "ScanOptions_init (PBool False) (PBool False) (PInt 1000) (PInt 1) PNone
     (PList [''email'']) (PInt 1) PNone (PBool False) (PStr ''text'') PNone [] ''except_patterns''
       = Some PNone"
    by blast
  from r t have "get_patterns (ScanOptions_init (PBool False) (PBool False) (PInt 1000) (PInt 1)
      PNone (PList [''email'']) (PInt 1) PNone (PBool False) (PStr ''text'') PNone [])
      = Inr (get_default_patterns @ (if truthy PNone then [custom_pattern PNone] else []))"
    by blast
  then have w2: "map_sum id (map name)
       (get_patterns (ScanOptions_init (PBool False) (PBool False) (PInt 1000) (PInt 1) PNone
          (PList [''email'']) (PInt 1) PNone (PBool False) (PStr ''text'') PNone []))
       = Inr 
      [''email'', ''phone'', ''ssn'', ''credit_card'', ''credit_card_masked'', ''ipv4'',
        ''ipv6'', ''url'', ''mac'', ''date'', ''time'', ''person_name'', ''company_name'']"
    by (simp add: get_default_patterns_def)
  have w3: "map_sum id (map name)
       (get_patterns (ScanOptions_init (PBool False) (PBool False) (PInt 1000) (PInt 1) PNone
          PNone (PInt 1) PNone (PBool False) (PStr ''text'') PNone
          [(''except_patterns'', PList [''email''])]))
       = Inr 
      [''phone'', ''ssn'', ''credit_card'', ''credit_card_masked'', ''ipv4'',
        ''ipv6'', ''url'', ''mac'', ''date'', ''time'', ''person_name'', ''company_name'']"
    by code_simp
  have kw: "distinct (map fst [(''except_patterns'', PList [''email''])])
            \<and> (''except_patterns'', PList [''email'']) \<in> set [(''except_patterns'', PList [''email''])]"
    by simp
  from except_patterns_reset [of "[(''except_patterns'', PList [''email''])]" "PBool False"
      "PBool False" "PInt 1000" "PInt 1" PNone PNone "PInt 1" PNone "PBool False" "PStr ''text''"
      PNone "PList [''email'']"] kw
  have w4: "ScanOptions_init (PBool False) (PBool False) (PInt 1000) (PInt 1) PNone PNone
       (PInt 1) PNone (PBool False) (PStr ''text'') PNone
       [(''except_patterns'', PList [''email''])] ''except_patterns'' = Some (PList [''email''])"
    by blast
  from w1 w2 w3 w4 show ?thesis by simp
qed

section \<open>Properties of the scan progress\<close>

lemma scan_table_with_progress_completed:
  "completed (progress (fst (snd (scan_table_with_progress stream (self, bar))))) =
     (case stream of
        Exhausted matches \<Rightarrow> completed (progress self) + 1
      | Raising yielded e \<Rightarrow> completed (progress self))"
  by (simp add: scan_table_with_progress_def split: stream_end.splits)

text \<open>
  C8 does not hold of the code: a unit whose stream raises, here the \<^verbatim>\<open>re.error\<close> of an
  invalid ad-hoc regex, is counted as skipped and advances the progress bar, and the
  counter \<^verbatim>\<open>completed\<close> of the progress record stays where it was. In a scan of two units
  of which the second is skipped, the counter ends at 1 of 2.
\<close>

theorem skipped_unit_not_counted:
  "completed (progress (fst (snd (scan_table_with_progress
      (Raising ([] :: string list) (OtherError ''re.error'')) (init_defaults, 0))))) = 0
   \<and> tables_skipped (metrics (fst (snd (scan_table_with_progress
      (Raising ([] :: string list) (OtherError ''re.error'')) (init_defaults, 0))))) = 1
   \<and> snd (snd (scan_table_with_progress
      (Raising ([] :: string list) (OtherError ''re.error'')) (init_defaults, 0))) = 1
   \<and> progress (fst (snd (scan_units
        [Exhausted [''m''], Raising [] (OtherError ''re.error'')] init_defaults)))
       = \<lparr>completed = 1, total_count = 2\<rparr>"
  by (simp add: scan_table_with_progress_def scan_units_def init_defaults_def)

end
